theory Spec2Isabelle
  imports Main "HOL-Library.Word" "HOL-Library.Char_ord" "HOL-Library.List_Lexorder"
    "HOL-Library.AList"
begin

section \<open>JavaScript string primitives used by the sources\<close>

text \<open>
  Strings are lists of characters; \<open>length\<close> is the JavaScript \<open>.length\<close> and the
  position of a character its index. A character stands for one code unit.
\<close>

text \<open>\<open>s.split(c)\<close> for a one-character separator: the empty string splits into one
  empty segment.\<close>

fun js_split :: "char \<Rightarrow> string \<Rightarrow> string list" where
  "js_split c [] = [[]]"
| "js_split c (x # xs) =
     (if x = c then [] # js_split c xs
      else (case js_split c xs of
              [] \<Rightarrow> [[x]]
            | p # ps \<Rightarrow> (x # p) # ps))"

text \<open>\<open>parts.join(sep)\<close>.\<close>

fun js_join :: "string \<Rightarrow> string list \<Rightarrow> string" where
  "js_join sep [] = []"
| "js_join sep [p] = p"
| "js_join sep (p # q # ps) = p @ sep @ js_join sep (q # ps)"

text \<open>\<open>s.startsWith(p)\<close> and \<open>s.endsWith(p)\<close>.\<close>

definition startsWith :: "string \<Rightarrow> string \<Rightarrow> bool" where
  "startsWith s p = (take (length p) s = p)"

definition endsWith :: "string \<Rightarrow> string \<Rightarrow> bool" where
  "endsWith s p = (length p \<le> length s \<and> drop (length s - length p) s = p)"

section \<open>User resolver (src/unnamed/part\_000)\<close>

record AnyContext =
  agentId :: "string option"
  sessionKey :: "string option"
  workspaceDir :: "string option"
  messageProvider :: "string option"
  messageChannel :: "string option"

text \<open>\<open>hash & hash\<close> and \<open>hash << 5\<close> convert to a signed 32-bit integer.\<close>

definition to_int32 :: "int \<Rightarrow> int" where
  "to_int32 x = sint (word_of_int x :: 32 word)"

text \<open>The loop of \<open>simpleHash\<close>: \<open>hash = (hash << 5) - hash + char; hash = hash & hash\<close>.\<close>

fun hash_loop :: "int \<Rightarrow> string \<Rightarrow> int" where
  "hash_loop h [] = h"
| "hash_loop h (c # cs) =
     hash_loop (to_int32 (to_int32 (h * 2 ^ 5) - h + int (of_char c))) cs"

definition hex_digit :: "nat \<Rightarrow> char" where
  "hex_digit d = ''0123456789abcdef'' ! d"

text \<open>\<open>n.toString(16)\<close> for a non-negative integer.\<close>

fun to_hex :: "nat \<Rightarrow> string" where
  "to_hex n = (if n < 16 then [hex_digit n] else to_hex (n div 16) @ [hex_digit (n mod 16)])"

declare to_hex.simps [simp del]

text \<open>\<open>s.padStart(n, "0")\<close>.\<close>

definition padStart0 :: "nat \<Rightarrow> string \<Rightarrow> string" where
  "padStart0 n s = replicate (n - length s) (CHR ''0'') @ s"

definition is_lower_hex :: "char \<Rightarrow> bool" where
  "is_lower_hex c = (c \<in> set ''0123456789abcdef'')"

definition simpleHash :: "string \<Rightarrow> string" where
  "simpleHash str = take 8 (padStart0 8 (to_hex (nat \<bar>hash_loop 0 str\<bar>)))"

definition resolveUserId :: "AnyContext \<Rightarrow> string" where
  "resolveUserId ctx =
     (let sessionKey = (case sessionKey ctx of Some k \<Rightarrow> k | None \<Rightarrow> '''');
          provider = (case messageProvider ctx of Some p \<Rightarrow> p
                      | None \<Rightarrow> (case messageChannel ctx of Some c \<Rightarrow> c | None \<Rightarrow> ''''));
          sessionParts = js_split (CHR '':'') sessionKey
      in if length sessionParts \<ge> 4
            \<and> sessionParts ! 2 \<noteq> [] \<and> js_join '':'' (drop 3 sessionParts) \<noteq> []
         then sessionParts ! 2 @ '':'' @ js_join '':'' (drop 3 sessionParts)
         else if provider \<noteq> [] \<and> sessionKey \<noteq> []
         then provider @ '':'' @ simpleHash sessionKey
         else if sessionKey \<noteq> []
         then ''session:'' @ simpleHash sessionKey
         else ''default'')"

section \<open>Identity map (src/unnamed/part\_000, src/types.ts)\<close>

record IdentityEntry =
  canonical :: string
  aliases :: "string list"
  label :: "string option"

record IdentityMap =
  identities :: "IdentityEntry list"

text \<open>The lookup is a JavaScript \<open>Map\<close>: a later \<open>set\<close> of a key replaces the earlier one.\<close>

definition entry_lookup :: "IdentityEntry \<Rightarrow> (string \<rightharpoonup> string) \<Rightarrow> (string \<rightharpoonup> string)" where
  "entry_lookup e lookup =
     (fold (\<lambda>alias l. l(alias \<mapsto> canonical e)) (aliases e) lookup)(canonical e \<mapsto> canonical e)"

definition buildAliasLookup :: "IdentityMap option \<Rightarrow> (string \<rightharpoonup> string) option" where
  "buildAliasLookup identityMap =
     (case identityMap of
        None \<Rightarrow> None
      | Some m \<Rightarrow> Some (fold entry_lookup (identities m) Map.empty))"

definition resolveCanonicalUserId :: "string \<Rightarrow> (string \<rightharpoonup> string) option \<Rightarrow> string" where
  "resolveCanonicalUserId rawId aliasLookup =
     (case aliasLookup of
        None \<Rightarrow> rawId
      | Some l \<Rightarrow> (case l rawId of Some c \<Rightarrow> c | None \<Rightarrow> rawId))"

record AddAliasResult =
  added :: bool
  entry :: IdentityEntry

text \<open>
  The first loop of \<open>addAliasToIdentityMap\<close>, over the entries in order: at the first
  entry that holds the alias it either returns that entry (\<open>Inl\<close>: the entry is the
  target's) or removes the alias from it and stops (\<open>Inr\<close>, the entries after the loop).
\<close>

fun detach_alias :: "string \<Rightarrow> string \<Rightarrow> IdentityEntry list \<Rightarrow> IdentityEntry + IdentityEntry list" where
  "detach_alias c alias [] = Inr []"
| "detach_alias c alias (e # es) =
     (if alias \<in> set (aliases e)
      then (if canonical e = c then Inl e
            else Inr (e\<lparr>aliases := filter (\<lambda>a. a \<noteq> alias) (aliases e)\<rparr> # es))
      else (case detach_alias c alias es of
              Inl r \<Rightarrow> Inl r
            | Inr es' \<Rightarrow> Inr (e # es')))"

text \<open>The object that \<open>find\<close> returned is mutated in place: the first entry that
  satisfies the predicate is replaced.\<close>

fun replace_first :: "('a \<Rightarrow> bool) \<Rightarrow> 'a \<Rightarrow> 'a list \<Rightarrow> 'a list" where
  "replace_first P y [] = []"
| "replace_first P y (x # xs) = (if P x then y # xs else x # replace_first P y xs)"

definition addAliasToIdentityMap ::
  "IdentityMap \<Rightarrow> string \<Rightarrow> string \<Rightarrow> string option \<Rightarrow> AddAliasResult \<times> IdentityMap" where
  "addAliasToIdentityMap m c alias lbl =
     (case detach_alias c alias (identities m) of
        Inl e \<Rightarrow> (\<lparr>added = False, entry = e\<rparr>, m)
      | Inr ids1 \<Rightarrow>
          (let (ids2, targetEntry) =
                 (case find (\<lambda>e. canonical e = c) ids1 of
                    Some t \<Rightarrow> (ids1, t)
                  | None \<Rightarrow>
                      (let t = \<lparr>canonical = c, aliases = [], label = lbl\<rparr>
                       in (ids1 @ [t], t)))
           in if alias \<notin> set (aliases targetEntry)
              then (let t' = targetEntry\<lparr>aliases := aliases targetEntry @ [alias]\<rparr>
                    in (\<lparr>added = True, entry = t'\<rparr>,
                        m\<lparr>identities := replace_first (\<lambda>e. canonical e = c) t' ids2\<rparr>))
              else (\<lparr>added = False, entry = targetEntry\<rparr>, m\<lparr>identities := ids2\<rparr>)))"

text \<open>Each alias string occurs at most once in the whole map: no alias belongs to two
  entries, and no alias list repeats an alias.\<close>

definition alias_unique :: "IdentityMap \<Rightarrow> bool" where
  "alias_unique m = distinct (concat (map aliases (identities m)))"

text \<open>No canonical ID is an alias of an entry with another canonical ID.\<close>

definition canonical_not_alias :: "IdentityMap \<Rightarrow> bool" where
  "canonical_not_alias m =
     (\<forall>e \<in> set (identities m). \<forall>e' \<in> set (identities m).
        canonical e \<in> set (aliases e') \<longrightarrow> canonical e' = canonical e)"

section \<open>Sleep mode: log entries and chunking (src/scripts/migrate-v1-to-v2.ts)\<close>

datatype Role = User | Assistant | Tool

record Message =
  role :: Role
  content :: string
  tool_name :: "string option"

record LogEntry =
  ts :: string
  user_id :: string
  channel :: string
  session_id :: string
  messages :: "Message list"

text \<open>\<open>s.trim()\<close>: the white space among the code units below 256.\<close>

definition is_space :: "char \<Rightarrow> bool" where
  "is_space c = (of_char c \<in> {9, 10, 11, 12, 13, 32, 160 :: nat})"

definition js_trim :: "string \<Rightarrow> string" where
  "js_trim s = rev (dropWhile is_space (rev (dropWhile is_space s)))"

text \<open>One line per message: \<open>`${prefix}: ${msg.content}`\<close>.\<close>

definition message_line :: "Message \<Rightarrow> string" where
  "message_line msg =
     (if role msg = User then ''USER''
      else if role msg = Tool
      then ''TOOL('' @ (case tool_name msg of
                          None \<Rightarrow> ''unknown''
                        | Some n \<Rightarrow> if n = [] then ''unknown'' else n) @ '')''
      else ''ASSISTANT'') @ '': '' @ content msg"

text \<open>The rendering of one entry: the header line, the message lines, joined by newlines
  and followed by a blank line.\<close>

definition entryText :: "LogEntry \<Rightarrow> string" where
  "entryText e =
     js_join [CHR 0x0A]
       ((''--- Session: '' @ session_id e @ '' | User: '' @ user_id e @ '' | '' @ ts e @ '' ---'')
        # map message_line (messages e))
     @ [CHR 0x0A, CHR 0x0A]"

text \<open>The loop of \<open>chunkForAnalysis\<close> over the entries; the state is \<open>chunks\<close> and
  \<open>currentChunk\<close>.\<close>

fun chunk_loop :: "int \<Rightarrow> LogEntry list \<Rightarrow> string list \<times> string \<Rightarrow> string list \<times> string" where
  "chunk_loop maxChunkChars [] st = st"
| "chunk_loop maxChunkChars (e # es) (chunks, currentChunk) =
     (if int (length currentChunk) + int (length (entryText e)) > maxChunkChars
         \<and> length currentChunk > 0
      then chunk_loop maxChunkChars es (chunks @ [currentChunk], entryText e)
      else chunk_loop maxChunkChars es (chunks, currentChunk @ entryText e))"

definition chunkForAnalysis :: "LogEntry list \<Rightarrow> int \<Rightarrow> string list" where
  "chunkForAnalysis entries maxChunkChars =
     (case chunk_loop maxChunkChars entries ([], []) of
        (chunks, currentChunk) \<Rightarrow>
          if js_trim currentChunk \<noteq> [] then chunks @ [currentChunk] else chunks)"

text \<open>The text of a run of entries: their renderings, one after the other.\<close>

definition entriesText :: "LogEntry list \<Rightarrow> string" where
  "entriesText g = concat (map entryText g)"

text \<open>A run of more than one entry stays within the limit.\<close>

definition within_limit :: "int \<Rightarrow> LogEntry list \<Rightarrow> bool" where
  "within_limit m g = (length g > 1 \<longrightarrow> int (length (entriesText g)) \<le> m)"

section \<open>Sleep mode: parsing the analysis (src/scripts/migrate-v1-to-v2.ts)\<close>

text \<open>JSON values as \<open>JSON.parse\<close> returns them. Numbers are IEEE doubles; nothing here
  inspects them.\<close>

typedecl js_number

datatype json =
    JNull
  | JBool bool
  | JNumber js_number
  | JString string
  | JArray "json list"
  | JObject "(string \<times> json) list"

datatype js_error = SyntaxError | TypeError

record Consolidation =
  merge_ids :: "json list"
  into :: string

text \<open>The fields are cast, not checked: the elements of the three sequences are whatever
  the JSON arrays hold.\<close>

record SleepAnalysis =
  hot_facts :: "json list"
  patterns :: "json list"
  reflections :: "json list"
  consolidations :: "Consolidation list"
  digest :: string

text \<open>
  Reading a property \<open>v.k\<close> for the keys used here (none of them is a built-in
  property): on \<open>null\<close> it throws a TypeError, on an object it is the member or
  \<open>undefined\<close> (\<open>None\<close>), on any other value it is \<open>undefined\<close>.
\<close>

fun get_prop :: "json \<Rightarrow> string \<Rightarrow> js_error + json option" where
  "get_prop JNull k = Inl TypeError"
| "get_prop (JObject kvs) k = Inr (map_of kvs k)"
| "get_prop v k = Inr None"

text \<open>\<open>Array.isArray(x) ? x : []\<close> and \<open>typeof x === "string" ? x : ""\<close>.\<close>

fun array_or_empty :: "json option \<Rightarrow> json list" where
  "array_or_empty (Some (JArray xs)) = xs"
| "array_or_empty v = []"

fun string_or_empty :: "json option \<Rightarrow> string" where
  "string_or_empty (Some (JString s)) = s"
| "string_or_empty v = []"

text \<open>\<open>cleaned.replace(/^```(?:json)?\n?/, "")\<close> on a string that starts with the fence.\<close>

definition strip_open_fence :: "string \<Rightarrow> string" where
  "strip_open_fence s =
     (let s1 = drop 3 s;
          s2 = (if startsWith s1 ''json'' then drop 4 s1 else s1)
      in if startsWith s2 [CHR 0x0A] then drop 1 s2 else s2)"

text \<open>\<open>.replace(/\n?```$/, "")\<close>: the match ends at the end of the string and starts as
  far left as it can.\<close>

definition strip_close_fence :: "string \<Rightarrow> string" where
  "strip_close_fence s =
     (if endsWith s (CHR 0x0A # ''```'') then take (length s - 4) s
      else if endsWith s ''```'' then take (length s - 3) s
      else s)"

definition strip_fences :: "string \<Rightarrow> string" where
  "strip_fences response =
     (let cleaned = js_trim response
      in if startsWith cleaned ''```'' then strip_close_fence (strip_open_fence cleaned)
         else cleaned)"

text \<open>One element of \<open>parsed.consolidations.map(...)\<close>.\<close>

definition parse_consolidation :: "json \<Rightarrow> js_error + Consolidation" where
  "parse_consolidation c =
     (case get_prop c ''merge_ids'' of
        Inl err \<Rightarrow> Inl err
      | Inr m \<Rightarrow>
          (case get_prop c ''into'' of
             Inl err \<Rightarrow> Inl err
           | Inr i \<Rightarrow> Inr \<lparr>merge_ids = array_or_empty m, into = string_or_empty i\<rparr>))"

text \<open>\<open>map\<close> with a callback that can throw: the first exception ends it.\<close>

fun map_throwing :: "('a \<Rightarrow> js_error + 'b) \<Rightarrow> 'a list \<Rightarrow> js_error + 'b list" where
  "map_throwing f [] = Inr []"
| "map_throwing f (x # xs) =
     (case f x of
        Inl err \<Rightarrow> Inl err
      | Inr y \<Rightarrow> (case map_throwing f xs of Inl err \<Rightarrow> Inl err | Inr ys \<Rightarrow> Inr (y # ys)))"

text \<open>The object literal of \<open>parseSleepAnalysis\<close>, its fields evaluated in order.\<close>

definition build_analysis :: "json \<Rightarrow> js_error + SleepAnalysis" where
  "build_analysis parsed =
     (case get_prop parsed ''hot_facts'' of Inl err \<Rightarrow> Inl err | Inr h \<Rightarrow>
     (case get_prop parsed ''patterns'' of Inl err \<Rightarrow> Inl err | Inr p \<Rightarrow>
     (case get_prop parsed ''reflections'' of Inl err \<Rightarrow> Inl err | Inr r \<Rightarrow>
     (case get_prop parsed ''consolidations'' of Inl err \<Rightarrow> Inl err | Inr c \<Rightarrow>
     (case map_throwing parse_consolidation (array_or_empty c) of Inl err \<Rightarrow> Inl err | Inr cs \<Rightarrow>
     (case get_prop parsed ''digest'' of Inl err \<Rightarrow> Inl err | Inr d \<Rightarrow>
        Inr \<lparr>hot_facts = array_or_empty h, patterns = array_or_empty p,
             reflections = array_or_empty r, consolidations = cs,
             digest = string_or_empty d\<rparr>))))))"

text \<open>\<open>JSON.parse\<close> is a parameter: \<open>None\<close> is its SyntaxError.\<close>

definition parseSleepAnalysis :: "(string \<Rightarrow> json option) \<Rightarrow> string \<Rightarrow> js_error + SleepAnalysis" where
  "parseSleepAnalysis JSON_parse response =
     (case JSON_parse (strip_fences response) of
        None \<Rightarrow> Inl SyntaxError
      | Some parsed \<Rightarrow> build_analysis parsed)"

section \<open>Sleep mode: the log directory (src/scripts/migrate-v1-to-v2.ts)\<close>

text \<open>
  The log directory is either missing (\<open>None\<close>) or holds files: their names, in the
  order \<open>readdirSync\<close> lists them, each with its content. A path \<open>join(logDir, name)\<close>
  is the name.
\<close>

type_synonym directory = "(string \<times> string) list option"

definition existsSync_dir :: "directory \<Rightarrow> bool" where
  "existsSync_dir dir = (dir \<noteq> None)"

definition readdirSync :: "directory \<Rightarrow> string list" where
  "readdirSync dir = (case dir of None \<Rightarrow> [] | Some files \<Rightarrow> map fst files)"

text \<open>\<open>readFileSync\<close> of a file of the directory; \<open>None\<close> when \<open>existsSync\<close> of the path is
  false.\<close>

definition read_file :: "directory \<Rightarrow> string \<Rightarrow> string option" where
  "read_file dir name = (case dir of None \<Rightarrow> None | Some files \<Rightarrow> map_of files name)"

datatype fs_error = ENOENT

text \<open>\<open>appendFileSync\<close>: creates the file when it is missing, never the directory.\<close>

definition appendFileSync :: "directory \<Rightarrow> string \<Rightarrow> string \<Rightarrow> fs_error + directory" where
  "appendFileSync dir name txt =
     (case dir of
        None \<Rightarrow> Inl ENOENT
      | Some files \<Rightarrow>
          (case map_of files name of
             None \<Rightarrow> Inr (Some (files @ [(name, txt)]))
           | Some old \<Rightarrow> Inr (Some (AList.update name (old @ txt) files))))"

text \<open>\<open>basename(f, ext)\<close> of a file name without directory part.\<close>

definition basename :: "string \<Rightarrow> string \<Rightarrow> string" where
  "basename f ext = (if endsWith f ext then take (length f - length ext) f else f)"

definition getProcessedDates :: "directory \<Rightarrow> string set" where
  "getProcessedDates logDir =
     (case read_file logDir ''.processed'' of
        None \<Rightarrow> {}
      | Some txt \<Rightarrow>
          set (filter (\<lambda>line. line \<noteq> []) (map js_trim (js_split (CHR 0x0A) txt))))"

definition markProcessed :: "directory \<Rightarrow> string \<Rightarrow> fs_error + directory" where
  "markProcessed logDir d = appendFileSync logDir ''.processed'' (d @ [CHR 0x0A])"

record DailyLog =
  date :: string
  path :: string

text \<open>
  \<open>Array.prototype.sort\<close> with a comparator: a stable sort, here by insertion. The
  comparator of the sources is \<open>localeCompare\<close>, a parameter of the model.
\<close>

fun insert_by :: "('a \<Rightarrow> 'a \<Rightarrow> int) \<Rightarrow> 'a \<Rightarrow> 'a list \<Rightarrow> 'a list" where
  "insert_by cmp x [] = [x]"
| "insert_by cmp x (y # ys) = (if cmp x y \<le> 0 then x # y # ys else y # insert_by cmp x ys)"

definition js_sort :: "('a \<Rightarrow> 'a \<Rightarrow> int) \<Rightarrow> 'a list \<Rightarrow> 'a list" where
  "js_sort cmp xs = foldr (insert_by cmp) xs []"

text \<open>\<open>today\<close> is \<open>new Date().toISOString().split("T")[0]\<close>.\<close>

definition findUnprocessedLogs ::
  "(string \<Rightarrow> string \<Rightarrow> int) \<Rightarrow> string \<Rightarrow> directory \<Rightarrow> DailyLog list" where
  "findUnprocessedLogs localeCompare today logDir =
     (if \<not> existsSync_dir logDir then []
      else (let processed = getProcessedDates logDir
            in js_sort (\<lambda>a b. localeCompare (date a) (date b))
                 (filter (\<lambda>f. date f \<noteq> today \<and> date f \<notin> processed)
                    (map (\<lambda>f. \<lparr>date = basename f ''.jsonl'', path = f\<rparr>)
                       (filter (\<lambda>f. endsWith f ''.jsonl'') (readdirSync logDir))))))"

text \<open>
  \<open>readDailyLog\<close>. \<open>JSON.parse(trimmed) as LogEntry\<close> is the parameter \<open>parse_entry\<close>
  (\<open>None\<close>: the line does not parse); the cast is unchecked in the source, and the model
  takes the parsed lines to be log entries, as \<open>appendToLog\<close> writes them.
\<close>

definition readDailyLog :: "(string \<Rightarrow> LogEntry option) \<Rightarrow> directory \<Rightarrow> string \<Rightarrow> LogEntry list" where
  "readDailyLog parse_entry logDir logPath =
     (case read_file logDir logPath of
        None \<Rightarrow> []
      | Some txt \<Rightarrow>
          concat (map (\<lambda>line.
                    (let trimmed = js_trim line
                     in if trimmed = [] then []
                        else (case parse_entry trimmed of None \<Rightarrow> [] | Some e \<Rightarrow> [e])))
                  (js_split (CHR 0x0A) txt)))"

section \<open>Sleep mode: the maintenance run (the mem0-sleep action of the plugin)\<close>

text \<open>
  The collaborators of the run are parameters: the memory provider (\<open>provider.add\<close>,
  \<open>provider.getAll\<close>) and \<open>saveDigest\<close>, with a state \<open>'x\<close> of their own (the memory
  store and the digest directory). A call either throws (\<open>None\<close>, \<open>False\<close>) or returns.
  What \<open>saveDigest\<close> writes is not modelled, only whether it throws.
\<close>

record AddResultItem =
  item_id :: string
  memory :: string
  event :: string

record 'x collaborators =
  provider_add :: "'x \<Rightarrow> (Role \<times> string) list \<Rightarrow> AddResultItem list option option \<times> 'x"
  provider_getAll :: "'x \<Rightarrow> string list option \<times> 'x"
  saveDigest :: "'x \<Rightarrow> string \<Rightarrow> SleepAnalysis \<Rightarrow> bool \<times> 'x"

text \<open>The calls made to the collaborators, in order, each with whether it returned.\<close>

datatype call =
    GetAllCall bool
  | AddCall "(Role \<times> string) list" bool
  | DigestCall string SleepAnalysis bool


record 'x world =
  w_logDir :: directory
  w_ext :: 'x
  w_calls :: "call list"

text \<open>The test \<open>/^\d{4}-\d{2}-\d{2}$/\<close>.\<close>

definition is_digit :: "char \<Rightarrow> bool" where
  "is_digit c = (c \<in> set ''0123456789'')"

fun valid_date :: "string \<Rightarrow> bool" where
  "valid_date [y1, y2, y3, y4, h1, m1, m2, h2, d1, d2] =
     (is_digit y1 \<and> is_digit y2 \<and> is_digit y3 \<and> is_digit y4 \<and> h1 = CHR ''-''
      \<and> is_digit m1 \<and> is_digit m2 \<and> h2 = CHR ''-'' \<and> is_digit d1 \<and> is_digit d2)"
| "valid_date s = False"

text \<open>\<open>String(n)\<close> for a length.\<close>

fun nat_to_string :: "nat \<Rightarrow> string" where
  "nat_to_string n =
     (if n < 10 then [''0123456789'' ! n]
      else nat_to_string (n div 10) @ [''0123456789'' ! (n mod 10)])"

declare nat_to_string.simps [simp del]

text \<open>\<open>xs.slice(-n)\<close>.\<close>

definition slice_last :: "nat \<Rightarrow> 'a list \<Rightarrow> 'a list" where
  "slice_last n xs = drop (length xs - n) xs"

text \<open>The candidate list: the single caller-given date, or the unprocessed logs.\<close>

definition discover ::
  "(string \<Rightarrow> string \<Rightarrow> int) \<Rightarrow> string \<Rightarrow> string option \<Rightarrow> directory \<Rightarrow> DailyLog list" where
  "discover localeCompare today opt_date logDir =
     (case opt_date of
        None \<Rightarrow> findUnprocessedLogs localeCompare today logDir
      | Some d \<Rightarrow>
          if d \<noteq> [] then [\<lparr>date = d, path = d @ ''.jsonl''\<rparr>]
          else findUnprocessedLogs localeCompare today logDir)"

text \<open>\<open>markProcessed(logDir, log.date)\<close> on the world; its exception leaves the action.\<close>

definition mark_day :: "'x world \<Rightarrow> string \<Rightarrow> fs_error + 'x world" where
  "mark_day w d =
     (case markProcessed (w_logDir w) d of
        Inl err \<Rightarrow> Inl err
      | Inr dir \<Rightarrow> Inr (w\<lparr>w_logDir := dir\<rparr>))"

text \<open>The messages handed to \<open>provider.add\<close>: those of role user or assistant.\<close>

definition extract_messages :: "LogEntry list \<Rightarrow> (Role \<times> string) list" where
  "extract_messages entries =
     concat (map (\<lambda>e. map (\<lambda>m. (role m, content m))
                         (filter (\<lambda>m. role m = User \<or> role m = Assistant) (messages e)))
                 entries)"

text \<open>\<open>result.results?.filter((r) => r.event === ev)\<close>, and its \<open>.length ?? 0\<close>.\<close>

definition results_with :: "string \<Rightarrow> AddResultItem list option \<Rightarrow> AddResultItem list option" where
  "results_with ev results = map_option (filter (\<lambda>r. event r = ev)) results"

definition count_or_zero :: "'a list option \<Rightarrow> nat" where
  "count_or_zero xs = (case xs of None \<Rightarrow> 0 | Some ys \<Rightarrow> length ys)"

definition simpleAnalysis :: "nat \<Rightarrow> string \<Rightarrow> AddResultItem list option \<Rightarrow> SleepAnalysis" where
  "simpleAnalysis n d results =
     \<lparr>hot_facts = (case results_with ''ADD'' results of
                     None \<Rightarrow> []
                   | Some rs \<Rightarrow> map (\<lambda>r. JString (memory r)) rs),
      patterns = [], reflections = [], consolidations = [],
      digest = ''Processed '' @ nat_to_string n @ '' conversations from '' @ d @ ''. ''
        @ ''Extracted '' @ nat_to_string (count_or_zero (results_with ''ADD'' results))
        @ '' new facts and updated ''
        @ nat_to_string (count_or_zero (results_with ''UPDATE'' results))
        @ '' existing memories.''\<rparr>"

text \<open>
  One round of the loop over the candidates. The chunks and the prompt are computed and
  only printed; they are left out. \<open>Inr\<close> is the end of the round (also through
  \<open>continue\<close> in the \<open>catch\<close>), \<open>Inl\<close> an exception that leaves the loop.
\<close>

definition process_day ::
  "'x collaborators \<Rightarrow> (string \<Rightarrow> LogEntry option) \<Rightarrow> bool \<Rightarrow> DailyLog \<Rightarrow> 'x world
     \<Rightarrow> fs_error + 'x world" where
  "process_day env parse_entry digestEnabled log w =
     (let entries = readDailyLog parse_entry (w_logDir w) (path log)
      in if length entries = 0 then mark_day w (date log)
         else (let msgs = extract_messages entries
               in if length msgs > 0
                  then (case provider_add env (w_ext w) (slice_last 20 msgs) of
                          (None, x1) \<Rightarrow>
                            Inr (w\<lparr>w_ext := x1,
                                   w_calls := w_calls w @ [AddCall (slice_last 20 msgs) False]\<rparr>)
                        | (Some results, x1) \<Rightarrow>
                            (let w1 = w\<lparr>w_ext := x1,
                                        w_calls := w_calls w @ [AddCall (slice_last 20 msgs) True]\<rparr>
                             in if digestEnabled
                                then (let a = simpleAnalysis (length entries) (date log) results
                                      in case saveDigest env x1 (date log) a of
                                           (False, x2) \<Rightarrow>
                                             Inr (w1\<lparr>w_ext := x2,
                                                     w_calls := w_calls w1 @ [DigestCall (date log) a False]\<rparr>)
                                         | (True, x2) \<Rightarrow>
                                             mark_day
                                               (w1\<lparr>w_ext := x2,
                                                   w_calls := w_calls w1 @ [DigestCall (date log) a True]\<rparr>)
                                               (date log))
                                else mark_day w1 (date log)))
                  else mark_day w (date log)))"

fun process_logs ::
  "'x collaborators \<Rightarrow> (string \<Rightarrow> LogEntry option) \<Rightarrow> bool \<Rightarrow> DailyLog list \<Rightarrow> 'x world
     \<Rightarrow> fs_error + 'x world" where
  "process_logs env parse_entry digestEnabled [] w = Inr w"
| "process_logs env parse_entry digestEnabled (log # logs) w =
     (case process_day env parse_entry digestEnabled log w of
        Inl err \<Rightarrow> Inl err
      | Inr w' \<Rightarrow> process_logs env parse_entry digestEnabled logs w')"

text \<open>The action of \<open>mem0-sleep\<close>, with its options \<open>--date\<close> and \<open>--dry-run\<close>.\<close>

definition mem0_sleep ::
  "'x collaborators \<Rightarrow> (string \<Rightarrow> LogEntry option) \<Rightarrow> (string \<Rightarrow> string \<Rightarrow> int) \<Rightarrow> string \<Rightarrow> bool
     \<Rightarrow> string option \<Rightarrow> bool \<Rightarrow> 'x world \<Rightarrow> fs_error + 'x world" where
  "mem0_sleep env parse_entry localeCompare today digestEnabled opt_date dryRun w =
     (if (case opt_date of None \<Rightarrow> False | Some d \<Rightarrow> d \<noteq> [] \<and> \<not> valid_date d) then Inr w
      else (let unprocessed = discover localeCompare today opt_date (w_logDir w)
            in if length unprocessed = 0 then Inr w
               else if dryRun then Inr w
               else (case provider_getAll env (w_ext w) of
                       (existing, x0) \<Rightarrow>
                         process_logs env parse_entry digestEnabled unprocessed
                           (w\<lparr>w_ext := x0,
                              w_calls := w_calls w @ [GetAllCall (existing \<noteq> None)]\<rparr>))))"

text \<open>The content of \<open>.processed\<close> is empty or ends with a newline, as \<open>markProcessed\<close>
  leaves it.\<close>

definition processed_file_ok :: "directory \<Rightarrow> bool" where
  "processed_file_ok logDir =
     (case read_file logDir ''.processed'' of
        None \<Rightarrow> True
      | Some txt \<Rightarrow> txt = [] \<or> last txt = CHR 0x0A)"

section \<open>Sleep mode: cold search (src/scripts/migrate-v1-to-v2.ts)\<close>

text \<open>
  \<open>String.prototype.toLowerCase\<close> is the library's and a parameter of the model,
  \<open>toLowerCase\<close>: it follows the Unicode case mappings, under which the lower-cased text may be
  longer than the text (U+0130 becomes the two code units U+0069 U+0307).
\<close>

text \<open>\<open>hay.indexOf(needle)\<close>: the first position where the needle starts, \<open>None\<close> for
  \<open>-1\<close>; \<open>hay.includes(needle)\<close> is \<open>indexOf hay needle \<noteq> None\<close>.\<close>

fun indexOf :: "string \<Rightarrow> string \<Rightarrow> nat option" where
  "indexOf [] needle = (if needle = [] then Some 0 else None)"
| "indexOf (h # t) needle =
     (if startsWith (h # t) needle then Some 0 else map_option Suc (indexOf t needle))"

text \<open>\<open>s.substring(a, b)\<close>: both positions are clamped to the length, and swapped when
  the first is the greater.\<close>

definition js_substring :: "string \<Rightarrow> nat \<Rightarrow> nat \<Rightarrow> string" where
  "js_substring s a b =
     (let a' = min a (length s);
          b' = min b (length s)
      in take (max a' b' - min a' b') (drop (min a' b') s))"

text \<open>The snippet around a match at \<open>idx\<close>; \<open>idx - 100\<close> on naturals is
  \<open>Math.max(0, idx - 100)\<close>.\<close>

definition match_context :: "string \<Rightarrow> string \<Rightarrow> nat \<Rightarrow> string" where
  "match_context query txt idx =
     (let start = idx - 100;
          end = min (length txt) (idx + length query + 100)
      in (if start > 0 then ''...'' else [])
         @ js_substring txt start end
         @ (if end < length txt then ''...'' else []))"

text \<open>The loop over the messages of one entry, left at the first match. The position
  \<open>idx\<close> is found in the lower-cased text and handed to the cut of the text itself.\<close>

fun first_match :: "(string \<Rightarrow> string) \<Rightarrow> string \<Rightarrow> Message list \<Rightarrow> string option" where
  "first_match toLowerCase query [] = None"
| "first_match toLowerCase query (msg # msgs) =
     (case indexOf (toLowerCase (content msg)) (toLowerCase query) of
        Some idx \<Rightarrow> Some (match_context query (content msg) idx)
      | None \<Rightarrow> first_match toLowerCase query msgs)"

text \<open>A result \<open>{entry, matchContext}\<close> is a pair. The loops over the entries of a file
  and over the files carry \<open>results\<close> and stop once it holds \<open>limit\<close> items.\<close>

fun search_entries ::
  "(string \<Rightarrow> string) \<Rightarrow> string \<Rightarrow> int \<Rightarrow> LogEntry list \<Rightarrow> (LogEntry \<times> string) list
     \<Rightarrow> (LogEntry \<times> string) list" where
  "search_entries toLowerCase query limit [] results = results"
| "search_entries toLowerCase query limit (e # es) results =
     (if int (length results) \<ge> limit then results
      else (case first_match toLowerCase query (messages e) of
              Some ctx \<Rightarrow> search_entries toLowerCase query limit es (results @ [(e, ctx)])
            | None \<Rightarrow> search_entries toLowerCase query limit es results))"

fun search_files ::
  "(string \<Rightarrow> LogEntry option) \<Rightarrow> (string \<Rightarrow> string) \<Rightarrow> directory \<Rightarrow> string \<Rightarrow> int
     \<Rightarrow> DailyLog list \<Rightarrow> (LogEntry \<times> string) list \<Rightarrow> (LogEntry \<times> string) list" where
  "search_files parse_entry toLowerCase logDir query limit [] results = results"
| "search_files parse_entry toLowerCase logDir query limit (f # fs) results =
     (if int (length results) \<ge> limit then results
      else search_files parse_entry toLowerCase logDir query limit fs
             (search_entries toLowerCase query limit (readDailyLog parse_entry logDir (path f)) results))"

text \<open>The filter on the file dates: \<open>if (dateFrom && f.date < dateFrom) return false\<close>,
  the same for \<open>dateTo\<close>; an absent or empty bound is falsy.\<close>

definition date_filter :: "string option \<Rightarrow> string option \<Rightarrow> DailyLog \<Rightarrow> bool" where
  "date_filter dateFrom dateTo f =
     (if (case dateFrom of None \<Rightarrow> False | Some lo \<Rightarrow> lo \<noteq> [] \<and> date f < lo) then False
      else if (case dateTo of None \<Rightarrow> False | Some hi \<Rightarrow> hi \<noteq> [] \<and> date f > hi) then False
      else True)"

definition search_file_list ::
  "(string \<Rightarrow> string \<Rightarrow> int) \<Rightarrow> directory \<Rightarrow> string option \<Rightarrow> string option \<Rightarrow> DailyLog list" where
  "search_file_list localeCompare logDir dateFrom dateTo =
     js_sort (\<lambda>a b. localeCompare (date b) (date a))
       (filter (date_filter dateFrom dateTo)
          (map (\<lambda>f. \<lparr>date = basename f ''.jsonl'', path = f\<rparr>)
             (filter (\<lambda>f. endsWith f ''.jsonl'') (readdirSync logDir))))"

definition searchLogs ::
  "(string \<Rightarrow> LogEntry option) \<Rightarrow> (string \<Rightarrow> string) \<Rightarrow> (string \<Rightarrow> string \<Rightarrow> int) \<Rightarrow> directory
     \<Rightarrow> string \<Rightarrow> string option \<Rightarrow> string option \<Rightarrow> int \<Rightarrow> (LogEntry \<times> string) list" where
  "searchLogs parse_entry toLowerCase localeCompare logDir query dateFrom dateTo limit =
     (if \<not> existsSync_dir logDir then []
      else search_files parse_entry toLowerCase logDir query limit
             (search_file_list localeCompare logDir dateFrom dateTo) [])"

text \<open>
  The specification's reading of a search, to compare with: every entry of every file
  in the date range, in the order the files are scanned, gives one hit when one of its
  messages matches, with the snippet of the first such message.
\<close>

definition entry_hits ::
  "(string \<Rightarrow> string) \<Rightarrow> string \<Rightarrow> LogEntry list \<Rightarrow> (LogEntry \<times> string) list" where
  "entry_hits toLowerCase query entries =
     List.map_filter (\<lambda>e. map_option (Pair e) (first_match toLowerCase query (messages e))) entries"

definition all_hits ::
  "(string \<Rightarrow> LogEntry option) \<Rightarrow> (string \<Rightarrow> string) \<Rightarrow> (string \<Rightarrow> string \<Rightarrow> int) \<Rightarrow> directory
     \<Rightarrow> string \<Rightarrow> string option \<Rightarrow> string option \<Rightarrow> (LogEntry \<times> string) list" where
  "all_hits parse_entry toLowerCase localeCompare logDir query dateFrom dateTo =
     concat (map (\<lambda>f. entry_hits toLowerCase query (readDailyLog parse_entry logDir (path f)))
               (search_file_list localeCompare logDir dateFrom dateTo))"

section \<open>Splitting and joining\<close>

lemma js_split_nonempty: "js_split c s \<noteq> []"
  by (induction s) (auto split: list.splits)

lemma js_split_segment: "c \<notin> set a \<Longrightarrow> js_split c (a @ c # r) = a # js_split c r"
  by (induction a) auto

lemma js_split_no_sep: "c \<notin> set a \<Longrightarrow> js_split c a = [a]"
  by (induction a) auto

lemma js_join_split: "js_join [c] (js_split c s) = s"
proof (induction s)
  case Nil
  show ?case by simp
next
  case (Cons x xs)
  obtain p ps where ps: "js_split c xs = p # ps"
    using js_split_nonempty [of c xs] by (cases "js_split c xs") auto
  with Cons show ?case
    by (cases ps) auto
qed

lemma js_split_sep_free: "p \<in> set (js_split c s) \<Longrightarrow> c \<notin> set p"
proof (induction s arbitrary: p)
  case Nil
  then show ?case by simp
next
  case (Cons x xs)
  then show ?case
    by (auto split: if_splits list.splits)
qed

section \<open>The short hash\<close>

lemma to_hex_length: "n < 16 ^ k \<Longrightarrow> 0 < k \<Longrightarrow> length (to_hex n) \<le> k"
proof (induction n arbitrary: k rule: to_hex.induct)
  case (1 n)
  show ?case
  proof (cases "n < 16")
    case True
    then show ?thesis using 1(3) by (simp add: to_hex.simps [of n])
  next
    case False
    then obtain j where k: "k = Suc j" using 1(3) by (cases k) auto
    have j0: "0 < j"
    proof (rule ccontr)
      assume "\<not> 0 < j"
      then have "k = 1" using k by simp
      with 1(2) False show False by simp
    qed
    have "n div 16 < 16 ^ j" using 1(2) k by (simp add: less_mult_imp_div_less mult.commute)
    from 1(1) [OF False this j0] show ?thesis
      using False k by (simp add: to_hex.simps [of n])
  qed
qed

lemma hex_digit_lower: "d < 16 \<Longrightarrow> is_lower_hex (hex_digit d)"
  unfolding is_lower_hex_def hex_digit_def by (rule nth_mem) simp

lemma to_hex_lower: "\<forall>c \<in> set (to_hex n). is_lower_hex c"
proof (induction n rule: to_hex.induct)
  case (1 n)
  show ?case
  proof (cases "n < 16")
    case True
    then show ?thesis by (simp add: to_hex.simps [of n] hex_digit_lower)
  next
    case False
    with 1 show ?thesis by (simp add: to_hex.simps [of n] hex_digit_lower)
  qed
qed

lemma to_int32_range: "- (2 ^ 31) \<le> to_int32 x \<and> to_int32 x < 2 ^ 31"
  unfolding to_int32_def
  using sint_ge [of "word_of_int x :: 32 word"] sint_lt [of "word_of_int x :: 32 word"] by simp

lemma hash_loop_range:
  "- (2 ^ 31) \<le> h \<and> h < 2 ^ 31 \<Longrightarrow> - (2 ^ 31) \<le> hash_loop h s \<and> hash_loop h s < 2 ^ 31"
proof (induction s arbitrary: h)
  case Nil
  then show ?case by simp
next
  case (Cons c cs)
  show ?case
    unfolding hash_loop.simps by (rule Cons.IH) (rule to_int32_range)
qed

lemma simpleHash_shape:
  "length (simpleHash s) = 8 \<and> (\<forall>c \<in> set (simpleHash s). is_lower_hex c)"
proof -
  let ?n = "nat \<bar>hash_loop 0 s\<bar>"
  have "- (2 ^ 31) \<le> hash_loop 0 s \<and> hash_loop 0 s < 2 ^ 31"
    by (rule hash_loop_range) simp
  then have "?n < 16 ^ 8" by (simp add: abs_if nat_less_iff)
  then have len: "length (to_hex ?n) \<le> 8" by (rule to_hex_length) simp
  have z: "is_lower_hex (CHR ''0'')" by (simp add: is_lower_hex_def)
  have "\<forall>c \<in> set (padStart0 8 (to_hex ?n)). is_lower_hex c"
    using to_hex_lower [of ?n] z by (auto simp: padStart0_def)
  moreover have "length (padStart0 8 (to_hex ?n)) = 8"
    using len by (simp add: padStart0_def)
  ultimately show ?thesis
    by (simp add: simpleHash_def)
qed

lemma simpleHash_abc: "simpleHash ''abc'' = ''00017862''"
proof -
  have h: "hash_loop 0 ''abc'' = 96354" by (simp add: to_int32_def)
  have x: "to_hex 96354 = ''17862''" by (simp add: to_hex.simps hex_digit_def)
  have r: "replicate 3 (CHR ''0'') = ''000''" by (simp add: numeral_3_eq_3)
  show ?thesis unfolding simpleHash_def h by (simp add: x padStart0_def r)
qed

section \<open>resolveUserId\<close>

lemma peer_shape_split:
  assumes "CHR '':'' \<notin> set s0" "CHR '':'' \<notin> set s1" "CHR '':'' \<notin> set p"
  shows "js_split (CHR '':'') (s0 @ '':'' @ s1 @ '':'' @ p @ '':'' @ rest)
         = s0 # s1 # p # js_split (CHR '':'') rest"
  using assms by (simp add: js_split_segment)

lemma peer_shape_iff:
  "(\<exists>s0 s1 p rest. CHR '':'' \<notin> set s0 \<and> CHR '':'' \<notin> set s1 \<and> CHR '':'' \<notin> set p
       \<and> p \<noteq> [] \<and> rest \<noteq> [] \<and> key = s0 @ '':'' @ s1 @ '':'' @ p @ '':'' @ rest)
   \<longleftrightarrow> (length (js_split (CHR '':'') key) \<ge> 4
        \<and> js_split (CHR '':'') key ! 2 \<noteq> []
        \<and> js_join '':'' (drop 3 (js_split (CHR '':'') key)) \<noteq> [])"
  (is "?L \<longleftrightarrow> ?R")
proof
  assume ?L
  then obtain s0 s1 p rest where h: "CHR '':'' \<notin> set s0" "CHR '':'' \<notin> set s1"
      "CHR '':'' \<notin> set p" "p \<noteq> []" "rest \<noteq> []"
      "key = s0 @ '':'' @ s1 @ '':'' @ p @ '':'' @ rest" by blast
  have sp: "js_split (CHR '':'') key = s0 # s1 # p # js_split (CHR '':'') rest"
    unfolding h(6) using h(1-3) by (rule peer_shape_split)
  obtain q qs where q: "js_split (CHR '':'') rest = q # qs"
    using js_split_nonempty [of "CHR '':''" rest] by (cases "js_split (CHR '':'') rest") auto
  have "js_join '':'' (js_split (CHR '':'') rest) = rest" by (rule js_join_split)
  with sp q h(4,5) show ?R by simp
next
  assume r: ?R
  let ?ps = "js_split (CHR '':'') key"
  from r obtain s0 s1 p q qs where ps: "?ps = s0 # s1 # p # q # qs"
    by (cases ?ps; cases "tl ?ps"; cases "tl (tl ?ps)"; cases "tl (tl (tl ?ps))") auto
  have free: "CHR '':'' \<notin> set s0" "CHR '':'' \<notin> set s1" "CHR '':'' \<notin> set p"
    using js_split_sep_free [of _ "CHR '':''" key] ps by auto
  have "js_join '':'' ?ps = key" by (rule js_join_split)
  then have "key = s0 @ '':'' @ s1 @ '':'' @ p @ '':'' @ js_join '':'' (q # qs)"
    using ps by simp
  moreover have "p \<noteq> []" "js_join '':'' (q # qs) \<noteq> []" using r ps by auto
  ultimately show ?L using free by blast
qed

lemma resolveUserId_shaped:
  assumes "sessionKey ctx = Some (s0 @ '':'' @ s1 @ '':'' @ p @ '':'' @ rest)"
    and "CHR '':'' \<notin> set s0" and "CHR '':'' \<notin> set s1" and "CHR '':'' \<notin> set p"
    and "p \<noteq> []" and "rest \<noteq> []"
  shows "resolveUserId ctx = p @ '':'' @ rest"
proof -
  let ?key = "s0 @ '':'' @ s1 @ '':'' @ p @ '':'' @ rest"
  have sp: "js_split (CHR '':'') ?key = s0 # s1 # p # js_split (CHR '':'') rest"
    using assms(2-4) by (rule peer_shape_split)
  obtain q qs where q: "js_split (CHR '':'') rest = q # qs"
    using js_split_nonempty [of "CHR '':''" rest] by (cases "js_split (CHR '':'') rest") auto
  have j: "js_join '':'' (js_split (CHR '':'') rest) = rest" by (rule js_join_split)
  show ?thesis
    unfolding resolveUserId_def Let_def assms(1) option.case sp
    using q j assms(5,6) by simp
qed

section \<open>Identity map lemmas\<close>

lemma find_split:
  "find P xs = Some t \<Longrightarrow> \<exists>pre post. xs = pre @ t # post \<and> (\<forall>x \<in> set pre. \<not> P x) \<and> P t"
proof (induction xs)
  case Nil
  then show ?case by simp
next
  case (Cons x xs)
  show ?case
  proof (cases "P x")
    case True
    with Cons.prems have "x = t" by simp
    with True have "x # xs = [] @ t # xs \<and> (\<forall>x \<in> set []. \<not> P x) \<and> P t" by simp
    then show ?thesis by blast
  next
    case False
    with Cons obtain pre post where "xs = pre @ t # post" "\<forall>x \<in> set pre. \<not> P x" "P t"
      by auto
    with False have "x # xs = (x # pre) @ t # post \<and> (\<forall>y \<in> set (x # pre). \<not> P y) \<and> P t"
      by simp
    then show ?thesis by blast
  qed
qed

lemma replace_first_split:
  "(\<forall>x \<in> set pre. \<not> P x) \<Longrightarrow> P t \<Longrightarrow> replace_first P y (pre @ t # post) = pre @ y # post"
  by (induction pre) auto

lemma detach_alias_Inl:
  "detach_alias c a ids = Inl e \<Longrightarrow> e \<in> set ids \<and> a \<in> set (aliases e) \<and> canonical e = c"
  by (induction ids) (auto split: if_splits sum.splits)

lemma detach_alias_subset:
  "detach_alias c a ids = Inr ids1 \<Longrightarrow>
     set (concat (map aliases ids1)) \<subseteq> set (concat (map aliases ids))"
proof (induction ids arbitrary: ids1)
  case Nil
  then show ?case by simp
next
  case (Cons e es)
  show ?case
  proof (cases "a \<in> set (aliases e)")
    case True
    with Cons.prems have "ids1 = e\<lparr>aliases := filter (\<lambda>x. x \<noteq> a) (aliases e)\<rparr> # es"
      by (simp split: if_splits)
    then show ?thesis by auto
  next
    case False
    with Cons.prems obtain es' where es': "detach_alias c a es = Inr es'" "ids1 = e # es'"
      by (auto split: sum.splits)
    from Cons.IH [OF es'(1)] show ?thesis unfolding es'(2) by auto
  qed
qed

lemma detach_alias_Inr:
  "detach_alias c a ids = Inr ids1 \<Longrightarrow> distinct (concat (map aliases ids)) \<Longrightarrow>
     distinct (concat (map aliases ids1)) \<and> a \<notin> set (concat (map aliases ids1))"
proof (induction ids arbitrary: ids1)
  case Nil
  then show ?case by simp
next
  case (Cons e es)
  show ?case
  proof (cases "a \<in> set (aliases e)")
    case True
    with Cons.prems(1) have ids1: "ids1 = e\<lparr>aliases := filter (\<lambda>x. x \<noteq> a) (aliases e)\<rparr> # es"
      by (simp split: if_splits)
    from Cons.prems(2) True have "a \<notin> set (concat (map aliases es))" by auto
    with Cons.prems(2) show ?thesis unfolding ids1 by auto
  next
    case False
    with Cons.prems(1) obtain es' where es': "detach_alias c a es = Inr es'" "ids1 = e # es'"
      by (auto split: sum.splits)
    from Cons.prems(2) have d: "distinct (concat (map aliases es))" by simp
    from Cons.IH [OF es'(1) d] have ih: "distinct (concat (map aliases es'))"
      "a \<notin> set (concat (map aliases es'))" by simp_all
    have sub: "set (concat (map aliases es')) \<subseteq> set (concat (map aliases es))"
      using es'(1) by (rule detach_alias_subset)
    with Cons.prems(2) ih False show ?thesis unfolding es'(2) by auto
  qed
qed

lemma detach_alias_first:
  "a \<notin> set (concat (map aliases pre)) \<Longrightarrow> a \<in> set (aliases e) \<Longrightarrow> canonical e = c
   \<Longrightarrow> detach_alias c a (pre @ e # post) = Inl e"
  by (induction pre) auto

lemma alias_owner_unique:
  "distinct (concat (map f xs)) \<Longrightarrow> x \<in> set xs \<Longrightarrow> y \<in> set xs \<Longrightarrow> a \<in> set (f x)
   \<Longrightarrow> a \<in> set (f y) \<Longrightarrow> x = y"
  by (induction xs) auto

lemma distinct_concat_member:
  "distinct (concat (map f xs)) \<Longrightarrow> x \<in> set xs \<Longrightarrow> distinct (f x)"
  by (induction xs) auto

lemma distinct_count_list_one: "distinct xs \<Longrightarrow> x \<in> set xs \<Longrightarrow> count_list xs x = 1"
  by (induction xs) (auto simp: count_list_0_iff)


lemma addAlias_shape:
  assumes "alias_unique m"
  shows "(\<exists>e. e \<in> set (identities m) \<and> a \<in> set (aliases e) \<and> canonical e = c
            \<and> detach_alias c a (identities m) = Inl e
            \<and> addAliasToIdentityMap m c a lbl = (\<lparr>added = False, entry = e\<rparr>, m))
       \<or> (\<exists>pre t post. a \<notin> set (concat (map aliases (pre @ t # post)))
            \<and> distinct (concat (map aliases (pre @ t # post)))
            \<and> (\<forall>x \<in> set pre. canonical x \<noteq> c) \<and> canonical t = c
            \<and> addAliasToIdentityMap m c a lbl =
                (\<lparr>added = True, entry = t\<lparr>aliases := aliases t @ [a]\<rparr>\<rparr>,
                 m\<lparr>identities := pre @ t\<lparr>aliases := aliases t @ [a]\<rparr> # post\<rparr>))"
proof (cases "detach_alias c a (identities m)")
  case (Inl e)
  from detach_alias_Inl [OF Inl] Inl show ?thesis
    by (simp add: addAliasToIdentityMap_def)
next
  case (Inr ids1)
  from assms have "distinct (concat (map aliases (identities m)))"
    by (simp add: alias_unique_def)
  from detach_alias_Inr [OF Inr this]
  have d1: "distinct (concat (map aliases ids1))" and n1: "a \<notin> set (concat (map aliases ids1))"
    by simp_all
  let ?P = "\<lambda>e. canonical e = c"
  show ?thesis
  proof (cases "find ?P ids1")
    case None
    let ?t = "\<lparr>canonical = c, aliases = [], label = lbl\<rparr>"
    from None have np: "\<forall>x \<in> set ids1. \<not> ?P x" by (simp add: find_None_iff)
    have r: "replace_first ?P (?t\<lparr>aliases := aliases ?t @ [a]\<rparr>) (ids1 @ ?t # [])
              = ids1 @ ?t\<lparr>aliases := aliases ?t @ [a]\<rparr> # []"
      using np by (intro replace_first_split) simp_all
    have "addAliasToIdentityMap m c a lbl =
                (\<lparr>added = True, entry = ?t\<lparr>aliases := aliases ?t @ [a]\<rparr>\<rparr>,
                 m\<lparr>identities := ids1 @ ?t\<lparr>aliases := aliases ?t @ [a]\<rparr> # []\<rparr>)"
      using Inr None r by (simp add: addAliasToIdentityMap_def Let_def)
    moreover have "a \<notin> set (concat (map aliases (ids1 @ ?t # [])))" using n1 by simp
    moreover have "distinct (concat (map aliases (ids1 @ ?t # [])))" using d1 by simp
    moreover have "\<forall>x \<in> set ids1. canonical x \<noteq> c" using np by simp
    moreover have "canonical ?t = c" by simp
    ultimately show ?thesis by blast
  next
    case (Some t)
    from find_split [OF Some] obtain pre post where sp: "ids1 = pre @ t # post"
      "\<forall>x \<in> set pre. \<not> ?P x" "?P t" by blast
    have r: "replace_first ?P (t\<lparr>aliases := aliases t @ [a]\<rparr>) ids1
              = pre @ t\<lparr>aliases := aliases t @ [a]\<rparr> # post"
      unfolding sp(1) using sp(2,3) by (rule replace_first_split)
    have nt: "a \<notin> set (aliases t)" using n1 sp(1) by simp
    have "addAliasToIdentityMap m c a lbl =
                (\<lparr>added = True, entry = t\<lparr>aliases := aliases t @ [a]\<rparr>\<rparr>,
                 m\<lparr>identities := pre @ t\<lparr>aliases := aliases t @ [a]\<rparr> # post\<rparr>)"
      using Inr Some r nt by (simp add: addAliasToIdentityMap_def Let_def)
    moreover have "a \<notin> set (concat (map aliases (pre @ t # post)))" using n1 sp(1) by simp
    moreover have "distinct (concat (map aliases (pre @ t # post)))" using d1 sp(1) by simp
    moreover have "\<forall>x \<in> set pre. canonical x \<noteq> c" using sp(2) by simp
    moreover have "canonical t = c" using sp(3) by simp
    ultimately show ?thesis by blast
  qed
qed

lemma fold_alias_set:
  "fold (\<lambda>alias l. l(alias \<mapsto> v)) as l k = (if k \<in> set as then Some v else l k)"
  by (induction as arbitrary: l) auto

lemma entry_lookup_apply:
  "entry_lookup e l k =
     (if k = canonical e \<or> k \<in> set (aliases e) then Some (canonical e) else l k)"
  by (simp add: entry_lookup_def fold_alias_set)

lemma fold_entry_lookup:
  "(\<forall>e \<in> set ids. k = canonical e \<or> k \<in> set (aliases e) \<longrightarrow> canonical e = v) \<Longrightarrow>
   fold entry_lookup ids l k =
     (if \<exists>e \<in> set ids. k = canonical e \<or> k \<in> set (aliases e) then Some v else l k)"
proof (induction ids arbitrary: l)
  case Nil
  show ?case by simp
next
  case (Cons e es)
  from Cons.prems have "\<forall>e \<in> set es. k = canonical e \<or> k \<in> set (aliases e) \<longrightarrow> canonical e = v"
    by simp
  from Cons.IH [OF this] Cons.prems show ?case
    by (auto simp: entry_lookup_apply)
qed

lemma lookup_consistent:
  assumes "alias_unique im" "canonical_not_alias im" "e \<in> set (identities im)"
    and "k = canonical e \<or> k \<in> set (aliases e)"
  shows "fold entry_lookup (identities im) Map.empty k = Some (canonical e)"
proof -
  have "\<forall>e' \<in> set (identities im). k = canonical e' \<or> k \<in> set (aliases e')
          \<longrightarrow> canonical e' = canonical e"
  proof (intro ballI impI)
    fix e' assume e': "e' \<in> set (identities im)" "k = canonical e' \<or> k \<in> set (aliases e')"
    from assms(1) have d: "distinct (concat (map aliases (identities im)))"
      by (simp add: alias_unique_def)
    consider "k = canonical e" "k = canonical e'" | "k = canonical e" "k \<in> set (aliases e')"
      | "k \<in> set (aliases e)" "k = canonical e'" | "k \<in> set (aliases e)" "k \<in> set (aliases e')"
      using assms(4) e'(2) by blast
    then show "canonical e' = canonical e"
    proof cases
      case 1
      then show ?thesis by simp
    next
      case 2
      with assms(2,3) e'(1) show ?thesis unfolding canonical_not_alias_def by blast
    next
      case 3
      with assms(2,3) e'(1) show ?thesis unfolding canonical_not_alias_def by metis
    next
      case 4
      from alias_owner_unique [OF d assms(3) e'(1) 4] show ?thesis by simp
    qed
  qed
  from fold_entry_lookup [OF this] assms(3,4) show ?thesis by auto
qed


lemma detach_alias_canonical:
  "detach_alias c a ids = Inr ids1 \<Longrightarrow> map canonical ids1 = map canonical ids"
proof (induction ids arbitrary: ids1)
  case Nil
  then show ?case by simp
next
  case (Cons e es)
  then show ?case by (auto split: if_splits sum.splits)
qed

lemma replace_first_canonical:
  "canonical y = c \<Longrightarrow> map canonical (replace_first (\<lambda>e. canonical e = c) y xs) = map canonical xs"
  by (induction xs) auto

lemma addAlias_canonicals:
  "map canonical (identities (snd (addAliasToIdentityMap m c a lbl))) =
     map canonical (identities m) @ (if c \<in> set (map canonical (identities m)) then [] else [c])"
proof (cases "detach_alias c a (identities m)")
  case (Inl e)
  from detach_alias_Inl [OF Inl] have "c \<in> set (map canonical (identities m))" by auto
  with Inl show ?thesis by (simp add: addAliasToIdentityMap_def)
next
  case (Inr ids1)
  note cs = detach_alias_canonical [OF Inr]
  show ?thesis
  proof (cases "find (\<lambda>e. canonical e = c) ids1")
    case None
    then have "c \<notin> set (map canonical ids1)" by (auto simp: find_None_iff)
    with Inr None cs show ?thesis
      by (simp add: addAliasToIdentityMap_def Let_def replace_first_canonical)
  next
    case (Some t)
    from find_split [OF Some] obtain pre post where sp: "ids1 = pre @ t # post" "canonical t = c"
      by blast
    then have "canonical t = c" and "c \<in> set (map canonical ids1)"
      by simp_all
    with Inr Some cs show ?thesis
      by (simp add: addAliasToIdentityMap_def Let_def replace_first_canonical)
  qed
qed

lemma addAlias_existing:
  assumes d: "distinct (concat (map aliases (identities m)))"
    and e: "e \<in> set (identities m)" "a \<in> set (aliases e)" "canonical e = c"
    and dl: "detach_alias c a (identities m) = Inl e"
  shows "(\<forall>x \<in> set (identities m). a \<in> set (aliases x) \<longrightarrow> x = e)
    \<and> addAliasToIdentityMap m c a lbl' = (\<lparr>added = False, entry = e\<rparr>, m)
    \<and> count_list (aliases e) a = 1"
proof -
  have u: "x = e" if "x \<in> set (identities m)" "a \<in> set (aliases x)" for x
    using d that(1) e(1) that(2) e(2) by (rule alias_owner_unique)
  have "distinct (aliases e)" using d e(1) by (rule distinct_concat_member)
  then have cnt: "count_list (aliases e) a = 1" using e(2) by (rule distinct_count_list_one)
  have again: "addAliasToIdentityMap m c a lbl' = (\<lparr>added = False, entry = e\<rparr>, m)"
    using dl by (simp add: addAliasToIdentityMap_def)
  from u again cnt show ?thesis by (intro conjI ballI impI)
qed

lemma addAlias_attached:
  assumes n: "a \<notin> set (concat (map aliases (pre @ t # post)))"
    and dd: "distinct (concat (map aliases (pre @ t # post)))"
    and ct: "canonical t = c"
    and t': "t' = t\<lparr>aliases := aliases t @ [a]\<rparr>"
    and m': "m' = m\<lparr>identities := pre @ t' # post\<rparr>"
  shows "alias_unique m'
    \<and> (\<forall>e \<in> set (identities m'). a \<in> set (aliases e) \<longrightarrow> e = t')
    \<and> addAliasToIdentityMap m' c a lbl' = (\<lparr>added = False, entry = t'\<rparr>, m')
    \<and> count_list (aliases t') a = 1"
proof -
  have u1: "alias_unique m'" unfolding m' t' alias_unique_def using n dd by auto
  have u2: "\<forall>e \<in> set (identities m'). a \<in> set (aliases e) \<longrightarrow> e = t'"
    unfolding m' using n by auto
  have "a \<notin> set (concat (map aliases pre))" using n by simp
  then have "detach_alias c a (pre @ t' # post) = Inl t'"
    by (rule detach_alias_first) (simp_all add: ct t')
  then have again: "addAliasToIdentityMap m' c a lbl' = (\<lparr>added = False, entry = t'\<rparr>, m')"
    unfolding m' by (simp add: addAliasToIdentityMap_def)
  have "a \<notin> set (aliases t)" using n by simp
  then have cnt: "count_list (aliases t') a = 1" unfolding t' by (simp add: count_list_0_iff)
  from u1 u2 again cnt show ?thesis by (intro conjI)
qed

section \<open>Chunking lemmas\<close>

lemma entryText_head: "\<exists>r. entryText e = CHR ''-'' # r"
  by (cases "messages e") (simp_all add: entryText_def)

lemma entryText_nonempty: "entryText e \<noteq> []"
  using entryText_head [of e] by auto

lemma not_space_dash: "\<not> is_space (CHR ''-'')"
  by (simp add: is_space_def)

lemma all_dropWhile: "(\<forall>x \<in> set (dropWhile P s). P x) \<longleftrightarrow> (\<forall>c \<in> set s. P c)"
  by (induction s) auto

lemma js_trim_empty_iff: "js_trim s = [] \<longleftrightarrow> (\<forall>c \<in> set s. is_space c)"
  by (simp add: js_trim_def all_dropWhile)

lemma entriesText_Nil_iff: "entriesText g = [] \<longleftrightarrow> g = []"
  by (cases g) (simp_all add: entriesText_def entryText_nonempty)

lemma js_trim_entriesText: "js_trim (entriesText g) = [] \<longleftrightarrow> g = []"
proof (cases g)
  case Nil
  then show ?thesis by (simp add: entriesText_def js_trim_def)
next
  case (Cons e es)
  obtain r where "entryText e = CHR ''-'' # r" using entryText_head by blast
  then have "CHR ''-'' \<in> set (entriesText g)" using Cons by (simp add: entriesText_def)
  with not_space_dash have "\<not> (\<forall>c \<in> set (entriesText g). is_space c)" by blast
  with Cons show ?thesis by (simp add: js_trim_empty_iff)
qed

lemma chunk_loop_groups:
  "within_limit m g0 \<Longrightarrow>
   \<exists>gs g. concat gs @ g = g0 @ es
     \<and> chunk_loop m es (chunks, entriesText g0) = (chunks @ map entriesText gs, entriesText g)
     \<and> (\<forall>x \<in> set gs. x \<noteq> [] \<and> within_limit m x) \<and> within_limit m g \<and> (g = [] \<longrightarrow> g0 = [] \<and> es = [])"
proof (induction es arbitrary: chunks g0)
  case Nil
  have "concat [] @ g0 = g0 @ [] \<and> chunk_loop m [] (chunks, entriesText g0) = (chunks @ map entriesText [], entriesText g0)
     \<and> (\<forall>x \<in> set []. x \<noteq> [] \<and> within_limit m x) \<and> within_limit m g0 \<and> (g0 = [] \<longrightarrow> g0 = [] \<and> [] = ([]::LogEntry list))"
    using Nil by simp
  then show ?case by blast
next
  case (Cons e es)
  show ?case
  proof (cases "int (length (entriesText g0)) + int (length (entryText e)) > m \<and> length (entriesText g0) > 0")
    case True
    then have g0: "g0 \<noteq> []" by (auto simp: entriesText_def)
    have w: "within_limit m [e]" by (simp add: within_limit_def)
    from Cons.IH [OF w, of "chunks @ [entriesText g0]"]
    obtain gs g where h: "concat gs @ g = [e] @ es"
       "chunk_loop m es (chunks @ [entriesText g0], entriesText [e]) = ((chunks @ [entriesText g0]) @ map entriesText gs, entriesText g)"
       "\<forall>x \<in> set gs. x \<noteq> [] \<and> within_limit m x" "within_limit m g" "g = [] \<longrightarrow> [e] = [] \<and> es = []"
      by blast
    have et: "entriesText [e] = entryText e" by (simp add: entriesText_def)
    have "concat (g0 # gs) @ g = g0 @ e # es" using h(1) by simp
    moreover have "chunk_loop m (e # es) (chunks, entriesText g0) = (chunks @ map entriesText (g0 # gs), entriesText g)"
      using True h(2) et by simp
    moreover have "\<forall>x \<in> set (g0 # gs). x \<noteq> [] \<and> within_limit m x" using h(3) g0 Cons.prems by simp
    moreover have "g = [] \<longrightarrow> g0 = [] \<and> e # es = []" using h(5) by simp
    ultimately show ?thesis using h(4) by blast
  next
    case False
    have app: "entriesText (g0 @ [e]) = entriesText g0 @ entryText e" by (simp add: entriesText_def)
    have w: "within_limit m (g0 @ [e])"
    proof (cases "g0 = []")
      case True
      then show ?thesis by (simp add: within_limit_def)
    next
      case nonempty: False
      then have "length (entriesText g0) > 0" by (simp add: entriesText_Nil_iff)
      with False have "int (length (entriesText g0)) + int (length (entryText e)) \<le> m" by simp
      then show ?thesis by (simp add: within_limit_def app)
    qed
    from Cons.IH [OF w, of chunks]
    obtain gs g where h: "concat gs @ g = (g0 @ [e]) @ es"
       "chunk_loop m es (chunks, entriesText (g0 @ [e])) = (chunks @ map entriesText gs, entriesText g)"
       "\<forall>x \<in> set gs. x \<noteq> [] \<and> within_limit m x" "within_limit m g" "g = [] \<longrightarrow> g0 @ [e] = [] \<and> es = []"
      by blast
    have "concat gs @ g = g0 @ e # es" using h(1) by simp
    moreover have "chunk_loop m (e # es) (chunks, entriesText g0) = (chunks @ map entriesText gs, entriesText g)"
      using False h(2) app by auto
    moreover have "g = [] \<longrightarrow> g0 = [] \<and> e # es = []" using h(5) by simp
    ultimately show ?thesis using h(3,4) by blast
  qed
qed

lemma concat_entriesText: "concat (map entriesText gs) = concat (map entryText (concat gs))"
  by (induction gs) (simp_all add: entriesText_def)

section \<open>Fence stripping\<close>

lemma js_trim_id: "s \<noteq> [] \<Longrightarrow> \<not> is_space (hd s) \<Longrightarrow> \<not> is_space (last s) \<Longrightarrow> js_trim s = s"
proof -
  assume a: "s \<noteq> []" "\<not> is_space (hd s)" "\<not> is_space (last s)"
  then have 1: "dropWhile is_space s = s" by (cases s) auto
  from a have "rev s \<noteq> []" "\<not> is_space (hd (rev s))" by (simp_all add: hd_rev)
  then have 2: "dropWhile is_space (rev s) = rev s" by (cases "rev s") auto
  show ?thesis by (simp add: js_trim_def 1 2)
qed

lemma strip_close_fence_wrapped: "strip_close_fence (j @ [CHR 0x0A] @ ''```'') = j"
  by (simp add: strip_close_fence_def endsWith_def)

lemma strip_fences_json_wrapped:
  "strip_fences (''```json'' @ [CHR 0x0A] @ j @ [CHR 0x0A] @ ''```'') = j"
proof -
  let ?w = "''```json'' @ [CHR 0x0A] @ j @ [CHR 0x0A] @ ''```''"
  have t: "js_trim ?w = ?w" by (rule js_trim_id) (simp_all add: is_space_def)
  have o: "strip_open_fence ?w = j @ [CHR 0x0A] @ ''```''"
    by (simp add: strip_open_fence_def startsWith_def)
  show ?thesis
    unfolding strip_fences_def Let_def t o strip_close_fence_wrapped
    by (simp add: startsWith_def)
qed

lemma strip_fences_unwrapped:
  "\<not> startsWith (js_trim j) ''```'' \<Longrightarrow> strip_fences j = js_trim j"
  by (simp add: strip_fences_def)

lemma parseSleepAnalysis_fenced:
  assumes "\<not> startsWith (js_trim j) ''```''" and "JSON_parse (js_trim j) = JSON_parse j"
  shows "parseSleepAnalysis JSON_parse (''```json'' @ [CHR 0x0A] @ j @ [CHR 0x0A] @ ''```'')
         = parseSleepAnalysis JSON_parse j"
  unfolding parseSleepAnalysis_def strip_fences_json_wrapped strip_fences_unwrapped [OF assms(1)]
  using assms(2) by simp

section \<open>Sorting and the log directory\<close>

lemma set_insert_by: "set (insert_by cmp x xs) = insert x (set xs)"
  by (induction xs) auto

lemma set_js_sort: "set (js_sort cmp xs) = set xs"
  by (induction xs) (simp_all add: js_sort_def set_insert_by)

lemma length_insert_by: "length (insert_by cmp x xs) = Suc (length xs)"
  by (induction xs) auto

lemma length_js_sort: "length (js_sort cmp xs) = length xs"
  by (induction xs) (simp_all add: js_sort_def length_insert_by)

lemma sorted_insert_by:
  assumes "\<forall>a \<in> insert x (set xs). \<forall>b \<in> insert x (set xs). (cmp a b \<le> 0) = (key a \<le> key b)"
    and "sorted (map key xs)"
  shows "sorted (map key (insert_by cmp x xs))"
  using assms
proof (induction xs)
  case Nil
  then show ?case by simp
next
  case (Cons y ys)
  show ?case
  proof (cases "cmp x y \<le> 0")
    case True
    with Cons.prems have "key x \<le> key y" by simp
    with Cons.prems(2) True show ?thesis by auto
  next
    case False
    with Cons.prems(1) have yx: "key y \<le> key x" by (metis insertI1 insert_subset linear list.set(2) subset_insertI)
    have "sorted (map key (insert_by cmp x ys))"
      using Cons.prems by (intro Cons.IH) auto
    with False yx Cons.prems(2) show ?thesis by (auto simp: set_insert_by)
  qed
qed

lemma sorted_js_sort:
  fixes key :: "'a \<Rightarrow> 'k::linorder"
  assumes "\<forall>a \<in> set xs. \<forall>b \<in> set xs. (cmp a b \<le> 0) = (key a \<le> key b)"
  shows "sorted (map key (js_sort cmp xs))"
  using assms
proof (induction xs)
  case Nil
  show ?case by (simp add: js_sort_def)
next
  case (Cons x xs)
  have s: "sorted (map key (js_sort cmp xs))" using Cons by simp
  have "js_sort cmp (x # xs) = insert_by cmp x (js_sort cmp xs)" by (simp add: js_sort_def)
  moreover have "sorted (map key (insert_by cmp x (js_sort cmp xs)))"
    using Cons.prems s by (intro sorted_insert_by) (simp_all add: set_js_sort)
  ultimately show ?case by simp
qed

lemma processed_example:
  "getProcessedDates (Some [(''2026-02-09.jsonl'', ''x''),
      (''.processed'', ''2026-02-07'' @ [CHR 0x0A]), (''2026-02-07.jsonl'', []),
      (''2026-02-10.jsonl'', []), (''2026-02-08.jsonl'', []), (''notes.txt'', [])])
   = {''2026-02-07''}"
  by (simp add: getProcessedDates_def read_file_def js_trim_def is_space_def)

section \<open>Marking a date\<close>

lemma js_split_append:
  "js_split c (xs @ c # ys) = js_split c xs @ js_split c ys"
proof (induction xs)
  case Nil
  show ?case by simp
next
  case (Cons x xs)
  obtain p ps where p: "js_split c xs = p # ps"
    using js_split_nonempty [of c xs] by (cases "js_split c xs") auto
  with Cons show ?case by simp
qed

lemma js_split_line: "c \<notin> set d \<Longrightarrow> js_split c (d @ [c]) = [d, []]"
  using js_split_segment [of c d "[]"] by simp

lemma js_split_ends_with_sep: "js_split c (xs @ [c]) = js_split c xs @ [[]]"
  using js_split_append [of c xs "[]"] by simp

lemma lines_after_append:
  assumes "old = [] \<or> last old = c" and "c \<notin> set d"
  shows "set (js_split c (old @ d @ [c])) = insert d (set (js_split c old))"
proof (cases "old = []")
  case True
  with assms(2) show ?thesis by (simp add: js_split_line)
next
  case False
  with assms(1) obtain pre where old: "old = pre @ [c]"
    by (metis append_butlast_last_id)
  have "js_split c (old @ d @ [c]) = js_split c pre @ js_split c (d @ [c])"
    unfolding old using js_split_append [of c pre "d @ [c]"] by simp
  also have "\<dots> = js_split c pre @ [d, []]" using assms(2) by (simp add: js_split_line)
  finally have 1: "set (js_split c (old @ d @ [c])) = insert d (insert [] (set (js_split c pre)))"
    by auto
  have "set (js_split c old) = insert [] (set (js_split c pre))"
    unfolding old js_split_ends_with_sep by auto
  with 1 show ?thesis by simp
qed

lemma js_trim_empty [simp]: "js_trim [] = []"
  by (simp add: js_trim_def)

lemma markProcessed_effect:
  assumes "logDir = Some files" and "processed_file_ok logDir"
    and "CHR 0x0A \<notin> set d" and "js_trim d = d" and "d \<noteq> []"
  shows "\<exists>dir'. markProcessed logDir d = Inr dir' \<and> dir' \<noteq> None
           \<and> getProcessedDates dir' = insert d (getProcessedDates logDir)
           \<and> processed_file_ok dir'
           \<and> (\<forall>name. name \<noteq> ''.processed'' \<longrightarrow> read_file dir' name = read_file logDir name)"
proof (cases "map_of files ''.processed''")
  case None
  let ?dir' = "Some (files @ [(''.processed'', d @ [CHR 0x0A])])"
  have m: "markProcessed logDir d = Inr ?dir'"
    using None assms(1) by (simp add: markProcessed_def appendFileSync_def)
  have r: "read_file ?dir' ''.processed'' = Some (d @ [CHR 0x0A])"
    using None by (simp add: read_file_def map_add_def)
  have g0: "getProcessedDates logDir = {}"
    using None assms(1) by (simp add: getProcessedDates_def read_file_def)
  have g: "getProcessedDates ?dir' = insert d (getProcessedDates logDir)"
    unfolding g0 using assms(3-5) by (simp add: getProcessedDates_def r js_split_line)
  have ok: "processed_file_ok ?dir'" by (simp add: processed_file_ok_def r)
  have other: "\<forall>name. name \<noteq> ''.processed'' \<longrightarrow> read_file ?dir' name = read_file logDir name"
    using assms(1) by (auto simp: read_file_def map_add_def split: option.splits)
  from m g ok other show ?thesis by blast
next
  case (Some old)
  let ?dir' = "Some (AList.update ''.processed'' (old @ d @ [CHR 0x0A]) files)"
  have m: "markProcessed logDir d = Inr ?dir'"
    using Some assms(1) by (simp add: markProcessed_def appendFileSync_def)
  have r: "read_file ?dir' ''.processed'' = Some (old @ d @ [CHR 0x0A])"
    by (simp add: read_file_def update_conv')
  have r0: "read_file logDir ''.processed'' = Some old"
    using Some assms(1) by (simp add: read_file_def)
  from assms(2) r0 have okold: "old = [] \<or> last old = CHR 0x0A"
    by (simp add: processed_file_ok_def)
  have lines: "set (js_split (CHR 0x0A) (old @ d @ [CHR 0x0A])) = insert d (set (js_split (CHR 0x0A) old))"
    using okold assms(3) by (rule lines_after_append)
  have g: "getProcessedDates ?dir' = insert d (getProcessedDates logDir)"
    using assms(4,5) by (auto simp: getProcessedDates_def r r0 lines)
  have ok: "processed_file_ok ?dir'" by (simp add: processed_file_ok_def r)
  have other: "\<forall>name. name \<noteq> ''.processed'' \<longrightarrow> read_file ?dir' name = read_file logDir name"
    using assms(1) by (simp add: read_file_def update_conv')
  from m g ok other show ?thesis by blast
qed

lemma valid_date_shape:
  assumes "valid_date d"
  shows "CHR 0x0A \<notin> set d \<and> js_trim d = d \<and> d \<noteq> []"
proof -
  from assms obtain y1 y2 y3 y4 h1 m1 m2 h2 d1 d2 where
    d: "d = [y1, y2, y3, y4, h1, m1, m2, h2, d1, d2]"
    by (cases d rule: valid_date.cases) auto
  have nd: "\<not> is_space c \<and> c \<noteq> CHR 0x0A" if "is_digit c \<or> c = CHR ''-''" for c
    using that by (auto simp: is_digit_def is_space_def)
  from assms d have all: "\<forall>c \<in> set d. is_digit c \<or> c = CHR ''-''" by simp
  with nd have 1: "CHR 0x0A \<notin> set d" by blast
  have "\<not> is_space (hd d)" "\<not> is_space (last d)" using all nd d by simp_all
  then have 2: "js_trim d = d" using d by (intro js_trim_id) simp_all
  from 1 2 d show ?thesis by simp
qed

section \<open>One round of the maintenance loop\<close>

lemma mark_day_cases:
  "(w_logDir w = None \<and> mark_day w d = Inl ENOENT)
   \<or> (\<exists>dir'. w_logDir w \<noteq> None \<and> dir' \<noteq> None \<and> markProcessed (w_logDir w) d = Inr dir'
          \<and> mark_day w d = Inr (w\<lparr>w_logDir := dir'\<rparr>))"
  by (cases "w_logDir w")
     (auto simp: mark_day_def markProcessed_def appendFileSync_def split: option.splits)


lemma readDailyLog_missing_file:
  "read_file logDir logPath = None \<Longrightarrow> readDailyLog parse_entry logDir logPath = []"
  by (simp add: readDailyLog_def)




text \<open>
  A candidate date whose daily log yields zero entries, in an existing log directory:
  the round makes no call to the provider and none to \<open>saveDigest\<close> (the calls and
  the collaborators' state are as before) and goes straight to \<open>markProcessed\<close> for
  that date; where the \<open>.processed\<close> file is empty or ends with a newline and the date
  is a line of its own (no newline, no surrounding white space, not empty), the date is
  in the processed-date set afterwards.
\<close>

lemma empty_day_existing_directory:
  assumes "readDailyLog p (w_logDir w) (path log) = []" and "w_logDir w \<noteq> None"
  shows "\<exists>w'. process_day env p de log w = Inr w' \<and> w_calls w' = w_calls w \<and> w_ext w' = w_ext w
           \<and> markProcessed (w_logDir w) (date log) = Inr (w_logDir w')
           \<and> (processed_file_ok (w_logDir w) \<and> CHR 0x0A \<notin> set (date log)
                \<and> js_trim (date log) = date log \<and> date log \<noteq> []
              \<longrightarrow> getProcessedDates (w_logDir w') = insert (date log) (getProcessedDates (w_logDir w)))"
proof -
  from assms(1) have pd: "process_day env p de log w = mark_day w (date log)"
    by (simp add: process_day_def)
  from mark_day_cases [of w "date log"] assms(2)
  obtain dir' where d: "markProcessed (w_logDir w) (date log) = Inr dir'"
      "mark_day w (date log) = Inr (w\<lparr>w_logDir := dir'\<rparr>)" by auto
  obtain files where f: "w_logDir w = Some files" using assms(2) by auto
  have eff: "getProcessedDates dir' = insert (date log) (getProcessedDates (w_logDir w))"
    if "processed_file_ok (w_logDir w) \<and> CHR 0x0A \<notin> set (date log)
                \<and> js_trim (date log) = date log \<and> date log \<noteq> []"
    using markProcessed_effect [OF f, of "date log"] that d(1) by auto
  show ?thesis
    unfolding pd d(2) using d(1) eff by (intro exI [of _ "w\<lparr>w_logDir := dir'\<rparr>"]) simp
qed

text \<open>
  With an explicit date that passes the format test, in an existing log directory that
  holds no log file for that date, the run calls \<open>provider.getAll\<close> once, reads zero
  entries and marks the date processed: no call to \<open>provider.add\<close>, none to
  \<open>saveDigest\<close>.
\<close>

lemma explicit_date_existing_directory:
  assumes "valid_date d"
  shows "discover localeCompare today (Some d) logDir = [\<lparr>date = d, path = d @ ''.jsonl''\<rparr>]
    \<and> (w_logDir w \<noteq> None \<and> read_file (w_logDir w) (d @ ''.jsonl'') = None \<longrightarrow>
         (\<exists>w'. mem0_sleep env p localeCompare today de (Some d) False w = Inr w'
            \<and> w_calls w' = w_calls w @ [GetAllCall (fst (provider_getAll env (w_ext w)) \<noteq> None)]
            \<and> w_ext w' = snd (provider_getAll env (w_ext w))
            \<and> markProcessed (w_logDir w) d = Inr (w_logDir w')
            \<and> (processed_file_ok (w_logDir w) \<longrightarrow>
                 getProcessedDates (w_logDir w') = insert d (getProcessedDates (w_logDir w)))))"
proof -
  note shape = valid_date_shape [OF assms]
  have disc: "discover localeCompare today (Some d) logDir = [\<lparr>date = d, path = d @ ''.jsonl''\<rparr>]"
    for logDir using shape by (simp add: discover_def)
  have run: "\<exists>w'. mem0_sleep env p localeCompare today de (Some d) False w = Inr w'
            \<and> w_calls w' = w_calls w @ [GetAllCall (fst (provider_getAll env (w_ext w)) \<noteq> None)]
            \<and> w_ext w' = snd (provider_getAll env (w_ext w))
            \<and> markProcessed (w_logDir w) d = Inr (w_logDir w')
            \<and> (processed_file_ok (w_logDir w) \<longrightarrow>
                 getProcessedDates (w_logDir w') = insert d (getProcessedDates (w_logDir w)))"
    if h: "w_logDir w \<noteq> None \<and> read_file (w_logDir w) (d @ ''.jsonl'') = None"
  proof -
    obtain existing x0 where ga: "provider_getAll env (w_ext w) = (existing, x0)"
      by (cases "provider_getAll env (w_ext w)")
    let ?w0 = "w\<lparr>w_ext := x0, w_calls := w_calls w @ [GetAllCall (existing \<noteq> None)]\<rparr>"
    let ?log = "\<lparr>date = d, path = d @ ''.jsonl''\<rparr>"
    have m: "mem0_sleep env p localeCompare today de (Some d) False w
             = process_logs env p de [?log] ?w0"
      using assms ga shape by (simp add: mem0_sleep_def disc)
    have rd: "readDailyLog p (w_logDir ?w0) (path ?log) = []"
      using h by (simp add: readDailyLog_missing_file)
    have pd: "process_day env p de ?log ?w0 = mark_day ?w0 d"
      using rd by (simp add: process_day_def)
    from mark_day_cases [of ?w0 d] h
    obtain dir' where dd: "markProcessed (w_logDir w) d = Inr dir'"
        "mark_day ?w0 d = Inr (?w0\<lparr>w_logDir := dir'\<rparr>)" by auto
    obtain files where f: "w_logDir w = Some files" using h by auto
    have eff: "getProcessedDates dir' = insert d (getProcessedDates (w_logDir w))"
      if "processed_file_ok (w_logDir w)"
      using markProcessed_effect [OF f that, of d] shape dd(1) by auto
    have "mem0_sleep env p localeCompare today de (Some d) False w = Inr (?w0\<lparr>w_logDir := dir'\<rparr>)"
      unfolding m by (simp only: process_logs.simps pd dd(2) sum.case)
    then show ?thesis
      using ga dd(1) eff by (intro exI [of _ "?w0\<lparr>w_logDir := dir'\<rparr>"]) simp
  qed
  from disc run show ?thesis by blast
qed

section \<open>Search lemmas\<close>

lemma search_entries_take:
  "search_entries toLowerCase q limit es rs = rs @ take (nat (limit - int (length rs))) (entry_hits toLowerCase q es)"
proof (induction es arbitrary: rs)
  case Nil
  show ?case by (simp add: entry_hits_def)
next
  case (Cons e es)
  show ?case
  proof (cases "int (length rs) \<ge> limit")
    case True
    then show ?thesis by simp
  next
    case False
    then obtain k where k: "nat (limit - int (length rs)) = Suc k"
      by (cases "nat (limit - int (length rs))") auto
    then have k': "nat (limit - int (length (rs @ [x]))) = k" for x :: "LogEntry \<times> string"
      by simp
    show ?thesis
    proof (cases "first_match toLowerCase q (messages e)")
      case None
      with False Cons [of rs] show ?thesis by (simp add: entry_hits_def)
    next
      case (Some ctx)
      with False Cons [of "rs @ [(e, ctx)]"] k k' show ?thesis
        by (simp add: entry_hits_def)
    qed
  qed
qed

lemma search_files_take:
  "search_files p toLowerCase dir q limit fs rs =
     rs @ take (nat (limit - int (length rs)))
            (concat (map (\<lambda>f. entry_hits toLowerCase q (readDailyLog p dir (path f))) fs))"
proof (induction fs arbitrary: rs)
  case Nil
  show ?case by simp
next
  case (Cons f fs)
  show ?case
  proof (cases "int (length rs) \<ge> limit")
    case True
    then show ?thesis by simp
  next
    case False
    let ?hf = "entry_hits toLowerCase q (readDailyLog p dir (path f))"
    let ?k = "nat (limit - int (length rs))"
    have se: "search_entries toLowerCase q limit (readDailyLog p dir (path f)) rs = rs @ take ?k ?hf"
      by (rule search_entries_take)
    have len: "nat (limit - (int (length rs) + int (min (length ?hf) ?k))) = ?k - length ?hf"
      by (auto simp: min_def)
    show ?thesis
      using False by (simp add: se Cons [of "rs @ take ?k ?hf"] len)
  qed
qed


lemma indexOf_Some:
  "indexOf hay needle = Some i \<Longrightarrow>
     i + length needle \<le> length hay \<and> take (length needle) (drop i hay) = needle
     \<and> (\<forall>j < i. \<not> startsWith (drop j hay) needle)"
proof (induction hay arbitrary: i)
  case Nil
  then show ?case by (simp split: if_splits)
next
  case (Cons h t)
  show ?case
  proof (cases "startsWith (h # t) needle")
    case True
    with Cons.prems have i: "i = 0" by simp
    from True have "take (length needle) (h # t) = needle" by (simp add: startsWith_def)
    moreover from this have "length needle \<le> length (h # t)"
    proof -
      assume "take (length needle) (h # t) = needle"
      then have "length (take (length needle) (h # t)) = length needle" by simp
      then show ?thesis by simp
    qed
    ultimately show ?thesis using i by simp
  next
    case False
    with Cons.prems obtain k where k: "indexOf t needle = Some k" "i = Suc k" by auto
    from Cons.IH [OF k(1)] have ih: "k + length needle \<le> length t"
      "take (length needle) (drop k t) = needle" "\<forall>j < k. \<not> startsWith (drop j t) needle"
      by simp_all
    have "\<not> startsWith (drop j (h # t)) needle" if "j < i" for j
    proof (cases j)
      case 0
      with False show ?thesis by simp
    next
      case (Suc j')
      with that k(2) ih(3) show ?thesis by simp
    qed
    with ih(1,2) k(2) show ?thesis by simp
  qed
qed

lemma indexOf_None:
  "indexOf hay needle = None \<Longrightarrow> \<forall>j \<le> length hay. \<not> startsWith (drop j hay) needle"
proof (induction hay)
  case Nil
  then show ?case by (simp add: startsWith_def split: if_splits)
next
  case (Cons h t)
  from Cons.prems have ns: "\<not> startsWith (h # t) needle" and t: "indexOf t needle = None"
    by (auto split: if_splits)
  show ?case
  proof (intro allI impI)
    fix j assume "j \<le> length (h # t)"
    then show "\<not> startsWith (drop j (h # t)) needle"
      using ns Cons.IH [OF t] by (cases j) auto
  qed
qed

lemma js_substring_ordered:
  "a \<le> b \<Longrightarrow> b \<le> length s \<Longrightarrow> js_substring s a b = take (b - a) (drop a s)"
  by (simp add: js_substring_def Let_def min_def max_def)

lemma js_substring_beyond:
  "length s \<le> a \<Longrightarrow> length s \<le> b \<Longrightarrow> js_substring s a b = []"
  by (simp add: js_substring_def Let_def min_def max_def)

lemma match_context_window:
  assumes "txt = pre @ mid @ post" and "length mid = length query"
  shows "match_context query txt (length pre) =
           (if length pre > 100 then ''...'' else [])
           @ slice_last 100 pre @ mid @ take 100 post
           @ (if length post > 100 then ''...'' else [])"
proof -
  let ?i = "length pre" and ?n = "length query"
  let ?start = "?i - 100"
  let ?end = "min (length txt) (?i + ?n + 100)"
  have len: "length txt = ?i + ?n + length post" using assms by simp
  have d: "drop ?start txt = slice_last 100 pre @ mid @ post"
    unfolding assms(1) by (simp add: slice_last_def)
  have l: "length (slice_last 100 pre) = min ?i 100" by (simp add: slice_last_def)
  have es: "?end - ?start = min ?i 100 + ?n + min (length post) 100"
    unfolding len by (simp add: min_def)
  have t: "take (?end - ?start) (drop ?start txt) = slice_last 100 pre @ mid @ take 100 post"
    unfolding es d using l assms(2) by (simp add: min_def)
  have o: "?start \<le> ?end" "?end \<le> length txt" unfolding len by linarith+
  have s: "js_substring txt ?start ?end = slice_last 100 pre @ mid @ take 100 post"
    using js_substring_ordered [OF o] t by simp
  have e: "(?end < length txt) = (length post > 100)" unfolding len by (simp add: min_def)
  show ?thesis
    unfolding match_context_def Let_def s e by simp
qed

lemma split_three: "xs = take i xs @ take n (drop i xs) @ drop (i + n) xs"
proof -
  have "drop i xs = take n (drop i xs) @ drop n (drop i xs)"
    by (rule append_take_drop_id [symmetric])
  also have "drop n (drop i xs) = drop (i + n) xs" by (simp add: add.commute)
  finally have "take i xs @ drop i xs = take i xs @ take n (drop i xs) @ drop (i + n) xs"
    by (rule arg_cong)
  then show ?thesis by (simp only: append_take_drop_id)
qed

text \<open>Where lower-casing maps each code unit to one code unit, a position in the
  lower-cased text is the same position in the text, and the snippet is cut around the
  match.\<close>

lemma first_match_Some:
  assumes lw: "\<And>s. toLowerCase s = map f s"
  shows "first_match toLowerCase q msgs = Some ctx \<Longrightarrow>
   \<exists>ms1 m ms2 pre mid post.
      msgs = ms1 @ m # ms2
      \<and> (\<forall>m' \<in> set ms1. indexOf (toLowerCase (content m')) (toLowerCase q) = None)
      \<and> content m = pre @ mid @ post \<and> toLowerCase mid = toLowerCase q
      \<and> indexOf (toLowerCase (content m)) (toLowerCase q) = Some (length pre)
      \<and> ctx = (if length pre > 100 then ''...'' else [])
               @ slice_last 100 pre @ mid @ take 100 post
               @ (if length post > 100 then ''...'' else [])"
proof (induction msgs)
  case Nil
  then show ?case by simp
next
  case (Cons m ms)
  show ?case
  proof (cases "indexOf (toLowerCase (content m)) (toLowerCase q)")
    case None
    with Cons.prems have "first_match toLowerCase q ms = Some ctx" by simp
    from Cons.IH [OF this] obtain ms1 m' ms2 pre mid post where h:
      "ms = ms1 @ m' # ms2"
      "\<forall>x \<in> set ms1. indexOf (toLowerCase (content x)) (toLowerCase q) = None"
      "content m' = pre @ mid @ post" "toLowerCase mid = toLowerCase q"
      "indexOf (toLowerCase (content m')) (toLowerCase q) = Some (length pre)"
      "ctx = (if length pre > 100 then ''...'' else [])
               @ slice_last 100 pre @ mid @ take 100 post
               @ (if length post > 100 then ''...'' else [])"
      by blast
    have "m # ms = (m # ms1) @ m' # ms2" using h(1) by simp
    moreover have "\<forall>x \<in> set (m # ms1). indexOf (toLowerCase (content x)) (toLowerCase q) = None"
      using h(2) None by simp
    ultimately show ?thesis using h(3-6) by blast
  next
    case (Some i)
    with Cons.prems have ctx: "ctx = match_context q (content m) i" by simp
    from indexOf_Some [OF Some] have io: "i + length q \<le> length (content m)"
      "take (length q) (drop i (toLowerCase (content m))) = toLowerCase q"
      by (simp_all add: lw)
    let ?pre = "take i (content m)" and ?mid = "take (length q) (drop i (content m))"
      and ?post = "drop (i + length q) (content m)"
    have sp: "content m = ?pre @ ?mid @ ?post" by (rule split_three)
    have lp: "length ?pre = i" using io(1) by simp
    have lm: "length ?mid = length q" using io(1) by simp
    have low: "toLowerCase ?mid = toLowerCase q"
      using io(2) by (simp add: lw take_map drop_map)
    have c: "ctx = (if length ?pre > 100 then ''...'' else [])
               @ slice_last 100 ?pre @ ?mid @ take 100 ?post
               @ (if length ?post > 100 then ''...'' else [])"
      unfolding ctx using match_context_window [OF sp lm] lp io(1) by simp
    have 1: "m # ms = [] @ m # ms" by simp
    have 2: "\<forall>x \<in> set []. indexOf (toLowerCase (content x)) (toLowerCase q) = None" by simp
    have 5: "indexOf (toLowerCase (content m)) (toLowerCase q) = Some (length ?pre)"
      by (simp only: lp Some)
    show ?thesis
      by (intro exI conjI) (rule 1, rule 2, rule sp, rule low, rule 5, rule c)
  qed
qed

lemma indexOf_iff:
  "indexOf hay needle \<noteq> None \<longleftrightarrow> (\<exists>pre post. hay = pre @ needle @ post)"
proof
  assume "indexOf hay needle \<noteq> None"
  then obtain i where i: "indexOf hay needle = Some i" by auto
  from indexOf_Some [OF i] have "take (length needle) (drop i hay) = needle" by simp
  with split_three [of hay i "length needle"]
  have "hay = take i hay @ needle @ drop (i + length needle) hay" by simp
  then show "\<exists>pre post. hay = pre @ needle @ post" by blast
next
  assume "\<exists>pre post. hay = pre @ needle @ post"
  then obtain pre post where h: "hay = pre @ needle @ post" by blast
  show "indexOf hay needle \<noteq> None"
  proof
    assume "indexOf hay needle = None"
    from indexOf_None [OF this] have "length pre \<le> length hay \<longrightarrow>
        \<not> startsWith (drop (length pre) hay) needle"
      by blast
    then show False unfolding h by (simp add: startsWith_def)
  qed
qed

lemma first_match_None_iff:
  "first_match toLowerCase q msgs = None \<longleftrightarrow>
     (\<forall>m \<in> set msgs. indexOf (toLowerCase (content m)) (toLowerCase q) = None)"
  by (induction msgs) (auto split: option.splits)

lemma set_entry_hits:
  "set (entry_hits toLowerCase q es) = {(e, ctx). e \<in> set es \<and> first_match toLowerCase q (messages e) = Some ctx}"
  by (induction es) (auto simp: entry_hits_def split: option.splits)

lemma set_search_file_list:
  "set (search_file_list cmp dir df dt) =
     {\<lparr>date = basename f ''.jsonl'', path = f\<rparr> | f.
        f \<in> set (readdirSync dir) \<and> endsWith f ''.jsonl''
        \<and> date_filter df dt \<lparr>date = basename f ''.jsonl'', path = f\<rparr>}"
  unfolding search_file_list_def set_js_sort by auto

lemma date_filter_bounds:
  "date_filter df dt f \<longleftrightarrow>
     (\<forall>lo. df = Some lo \<longrightarrow> lo \<le> date f) \<and> (\<forall>hi. dt = Some hi \<and> hi \<noteq> [] \<longrightarrow> date f \<le> hi)"
  by (cases df; cases dt) (auto simp: date_filter_def not_less)

lemma set_all_hits:
  "set (all_hits p toLowerCase cmp dir q df dt) =
     {(e, ctx). \<exists>f. f \<in> set (readdirSync dir) \<and> endsWith f ''.jsonl''
        \<and> date_filter df dt \<lparr>date = basename f ''.jsonl'', path = f\<rparr>
        \<and> e \<in> set (readDailyLog p dir f) \<and> first_match toLowerCase q (messages e) = Some ctx}"
  unfolding all_hits_def by (auto simp: set_search_file_list set_entry_hits)

lemma match_context_beyond:
  assumes "length txt + 100 < idx"
  shows "match_context query txt idx = ''...''"
proof -
  let ?start = "idx - 100"
  let ?end = "min (length txt) (idx + length query + 100)"
  have s: "0 < ?start" "length txt \<le> ?start" using assms by simp_all
  have e: "?end = length txt" using assms by simp
  have sub: "js_substring txt ?start ?end = []"
    unfolding e by (rule js_substring_beyond) (use s in simp_all)
  show ?thesis
    unfolding match_context_def Let_def sub using s(1) e by simp
qed

text \<open>
  The search as a whole. A missing directory gives the empty sequence. Otherwise the
  result of \<open>searchLogs\<close> is the first \<open>limit\<close> hits (none for a limit below 1) of the
  list \<open>all_hits\<close>: so it has at most \<open>limit\<close> items, and exactly \<open>limit\<close> when at
  least that many entries match. Every entry of a file \<open><date>.jsonl\<close> whose date is
  within the inclusive bounds (an absent or empty bound does not bound) with a message
  whose lower-cased text contains the lower-cased query gives a hit, and an entry gives
  one hit at most. Where lower-casing maps each code unit to one code unit, the snippet
  of a hit is that of the first message of the entry that matches, at its first
  occurrence: up to 100 code units before the match, the match, up to 100 after it, with
  \<open>...\<close> on each side where text was cut.
\<close>

lemma searchLogs_positional:
  assumes lw: "\<And>s. toLowerCase s = map f s"
  shows "searchLogs p toLowerCase cmp None q df dt limit = []
   \<and> searchLogs p toLowerCase cmp dir q df dt limit = take (nat limit) (all_hits p toLowerCase cmp dir q df dt)
   \<and> int (length (searchLogs p toLowerCase cmp dir q df dt limit)) \<le> max 0 limit
   \<and> (0 \<le> limit \<and> limit \<le> int (length (all_hits p toLowerCase cmp dir q df dt))
        \<longrightarrow> int (length (searchLogs p toLowerCase cmp dir q df dt limit)) = limit)
   \<and> (\<forall>(e, ctx) \<in> set (all_hits p toLowerCase cmp dir q df dt).
        \<exists>f \<in> set (readdirSync dir). endsWith f ''.jsonl''
          \<and> (\<forall>lo. df = Some lo \<longrightarrow> lo \<le> basename f ''.jsonl'')
          \<and> (\<forall>hi. dt = Some hi \<and> hi \<noteq> [] \<longrightarrow> basename f ''.jsonl'' \<le> hi)
          \<and> e \<in> set (readDailyLog p dir f)
          \<and> (\<exists>ms1 m ms2 pre mid post.
                messages e = ms1 @ m # ms2
                \<and> (\<forall>m' \<in> set ms1. indexOf (toLowerCase (content m')) (toLowerCase q) = None)
                \<and> content m = pre @ mid @ post \<and> toLowerCase mid = toLowerCase q
                \<and> indexOf (toLowerCase (content m)) (toLowerCase q) = Some (length pre)
                \<and> ctx = (if length pre > 100 then ''...'' else [])
                         @ slice_last 100 pre @ mid @ take 100 post
                         @ (if length post > 100 then ''...'' else [])))
   \<and> (\<forall>f \<in> set (readdirSync dir). \<forall>e \<in> set (readDailyLog p dir f).
        endsWith f ''.jsonl''
        \<and> (\<forall>lo. df = Some lo \<longrightarrow> lo \<le> basename f ''.jsonl'')
        \<and> (\<forall>hi. dt = Some hi \<and> hi \<noteq> [] \<longrightarrow> basename f ''.jsonl'' \<le> hi)
        \<and> (\<exists>m \<in> set (messages e). \<exists>pre post.
              toLowerCase (content m) = pre @ toLowerCase q @ post)
        \<longrightarrow> (\<exists>ctx. (e, ctx) \<in> set (all_hits p toLowerCase cmp dir q df dt)))
   \<and> length (all_hits p toLowerCase cmp dir q df dt)
       = length (filter (\<lambda>e. first_match toLowerCase q (messages e) \<noteq> None)
           (concat (map (\<lambda>f. readDailyLog p dir (path f)) (search_file_list cmp dir df dt))))"
proof -
  have A: "searchLogs p toLowerCase cmp None q df dt limit = []"
    by (simp add: searchLogs_def existsSync_dir_def)
  have B: "searchLogs p toLowerCase cmp dir q df dt limit = take (nat limit) (all_hits p toLowerCase cmp dir q df dt)"
  proof (cases dir)
    case None
    then show ?thesis
      by (simp add: A all_hits_def search_file_list_def readdirSync_def js_sort_def)
  next
    case (Some files)
    then show ?thesis
      by (simp add: searchLogs_def existsSync_dir_def search_files_take all_hits_def)
  qed
  have C: "int (length (searchLogs p toLowerCase cmp dir q df dt limit)) \<le> max 0 limit"
    unfolding B by simp
  have D: "0 \<le> limit \<and> limit \<le> int (length (all_hits p toLowerCase cmp dir q df dt))
        \<longrightarrow> int (length (searchLogs p toLowerCase cmp dir q df dt limit)) = limit"
    unfolding B by auto
  have E: "\<forall>(e, ctx) \<in> set (all_hits p toLowerCase cmp dir q df dt).
        \<exists>f \<in> set (readdirSync dir). endsWith f ''.jsonl''
          \<and> (\<forall>lo. df = Some lo \<longrightarrow> lo \<le> basename f ''.jsonl'')
          \<and> (\<forall>hi. dt = Some hi \<and> hi \<noteq> [] \<longrightarrow> basename f ''.jsonl'' \<le> hi)
          \<and> e \<in> set (readDailyLog p dir f)
          \<and> (\<exists>ms1 m ms2 pre mid post.
                messages e = ms1 @ m # ms2
                \<and> (\<forall>m' \<in> set ms1. indexOf (toLowerCase (content m')) (toLowerCase q) = None)
                \<and> content m = pre @ mid @ post \<and> toLowerCase mid = toLowerCase q
                \<and> indexOf (toLowerCase (content m)) (toLowerCase q) = Some (length pre)
                \<and> ctx = (if length pre > 100 then ''...'' else [])
                         @ slice_last 100 pre @ mid @ take 100 post
                         @ (if length post > 100 then ''...'' else []))"
  proof (intro ballI, clarify)
    fix e ctx assume "(e, ctx) \<in> set (all_hits p toLowerCase cmp dir q df dt)"
    then obtain f where f: "f \<in> set (readdirSync dir)" "endsWith f ''.jsonl''"
        "date_filter df dt \<lparr>date = basename f ''.jsonl'', path = f\<rparr>"
        "e \<in> set (readDailyLog p dir f)" "first_match toLowerCase q (messages e) = Some ctx"
      unfolding set_all_hits by blast
    from f(3) have b: "(\<forall>lo. df = Some lo \<longrightarrow> lo \<le> basename f ''.jsonl'')"
        "(\<forall>hi. dt = Some hi \<and> hi \<noteq> [] \<longrightarrow> basename f ''.jsonl'' \<le> hi)"
      unfolding date_filter_bounds by simp_all
    note w = first_match_Some [OF lw f(5)]
    show "\<exists>f \<in> set (readdirSync dir). endsWith f ''.jsonl''
          \<and> (\<forall>lo. df = Some lo \<longrightarrow> lo \<le> basename f ''.jsonl'')
          \<and> (\<forall>hi. dt = Some hi \<and> hi \<noteq> [] \<longrightarrow> basename f ''.jsonl'' \<le> hi)
          \<and> e \<in> set (readDailyLog p dir f)
          \<and> (\<exists>ms1 m ms2 pre mid post.
                messages e = ms1 @ m # ms2
                \<and> (\<forall>m' \<in> set ms1. indexOf (toLowerCase (content m')) (toLowerCase q) = None)
                \<and> content m = pre @ mid @ post \<and> toLowerCase mid = toLowerCase q
                \<and> indexOf (toLowerCase (content m)) (toLowerCase q) = Some (length pre)
                \<and> ctx = (if length pre > 100 then ''...'' else [])
                         @ slice_last 100 pre @ mid @ take 100 post
                         @ (if length post > 100 then ''...'' else []))"
      by (intro bexI [of _ f] conjI f(1,2,4) b w)
  qed
  have F: "\<forall>f \<in> set (readdirSync dir). \<forall>e \<in> set (readDailyLog p dir f).
        endsWith f ''.jsonl''
        \<and> (\<forall>lo. df = Some lo \<longrightarrow> lo \<le> basename f ''.jsonl'')
        \<and> (\<forall>hi. dt = Some hi \<and> hi \<noteq> [] \<longrightarrow> basename f ''.jsonl'' \<le> hi)
        \<and> (\<exists>m \<in> set (messages e). \<exists>pre post.
              toLowerCase (content m) = pre @ toLowerCase q @ post)
        \<longrightarrow> (\<exists>ctx. (e, ctx) \<in> set (all_hits p toLowerCase cmp dir q df dt))"
  proof (intro ballI impI, elim conjE)
    fix f e
    assume f: "f \<in> set (readdirSync dir)" "e \<in> set (readDailyLog p dir f)"
      "endsWith f ''.jsonl''" "\<forall>lo. df = Some lo \<longrightarrow> lo \<le> basename f ''.jsonl''"
      "\<forall>hi. dt = Some hi \<and> hi \<noteq> [] \<longrightarrow> basename f ''.jsonl'' \<le> hi"
      and m: "\<exists>m \<in> set (messages e). \<exists>pre post.
              toLowerCase (content m) = pre @ toLowerCase q @ post"
    from m obtain m0 where "m0 \<in> set (messages e)"
        "indexOf (toLowerCase (content m0)) (toLowerCase q) \<noteq> None"
      unfolding indexOf_iff by blast
    then have "first_match toLowerCase q (messages e) \<noteq> None"
      unfolding first_match_None_iff by auto
    then obtain ctx where ctx: "first_match toLowerCase q (messages e) = Some ctx" by auto
    have df: "date_filter df dt \<lparr>date = basename f ''.jsonl'', path = f\<rparr>"
      unfolding date_filter_bounds using f(4,5) by simp
    have "(e, ctx) \<in> set (all_hits p toLowerCase cmp dir q df dt)"
      unfolding set_all_hits using f(1,2,3) df ctx by blast
    then show "\<exists>ctx. (e, ctx) \<in> set (all_hits p toLowerCase cmp dir q df dt)" ..
  qed
  have eh: "length (entry_hits toLowerCase q es) = length (filter (\<lambda>e. first_match toLowerCase q (messages e) \<noteq> None) es)"
    for es by (induction es) (auto simp: entry_hits_def split: option.splits)
  have G: "length (all_hits p toLowerCase cmp dir q df dt)
       = length (filter (\<lambda>e. first_match toLowerCase q (messages e) \<noteq> None)
           (concat (map (\<lambda>f. readDailyLog p dir (path f)) (search_file_list cmp dir df dt))))"
  proof -
    have "length (concat (map (\<lambda>f. entry_hits toLowerCase q (readDailyLog p dir (path f))) fs))
       = length (filter (\<lambda>e. first_match toLowerCase q (messages e) \<noteq> None)
           (concat (map (\<lambda>f. readDailyLog p dir (path f)) fs)))" for fs :: "DailyLog list"
      by (induction fs) (simp_all add: eh)
    then show ?thesis unfolding all_hits_def .
  qed
  from A B C D E F G show ?thesis by (intro conjI)
qed

section \<open>Claims on resolveUserId\<close>

text \<open>
  C3, as stated, fails: a session key of four segments whose first segment is not
  \<open>agent\<close> does not match \<open>agent:<a>:<p>:<rest>\<close>, a provider and a session key are
  both present, and yet the result is not \<open><provider>:<shortHash(sessionKey)>\<close> but the
  third segment and the remainder of the key.
\<close>

theorem resolveUserId_counterexample:
  "\<not> startsWith ''user:main:telegram:12345'' ''agent:''
   \<and> resolveUserId \<lparr>agentId = None, sessionKey = Some ''user:main:telegram:12345'',
        workspaceDir = None, messageProvider = Some ''discord'', messageChannel = None\<rparr>
     = ''telegram:12345''
   \<and> resolveUserId \<lparr>agentId = None, sessionKey = Some ''user:main:telegram:12345'',
        workspaceDir = None, messageProvider = Some ''discord'', messageChannel = None\<rparr>
     \<noteq> ''discord:'' @ simpleHash ''user:main:telegram:12345''"
  by (simp add: resolveUserId_def startsWith_def)

text \<open>
  C3, amended. Let \<open>key\<close> be the session key (empty when absent) and \<open>provider\<close> the
  \<open>messageProvider\<close> field, else the \<open>messageChannel\<close> field, else empty. If the key is
  \<open>s0:s1:p:rest\<close> with colon-free \<open>s0\<close>, \<open>s1\<close>, \<open>p\<close>, non-empty \<open>p\<close> and non-empty
  \<open>rest\<close> (in particular \<open>agent:<a>:<p>:<rest>\<close>; \<open>rest\<close> may contain colons), the result is
  \<open>p:rest\<close>. Otherwise, if provider and key are both non-empty, it is
  \<open>provider:simpleHash key\<close>; otherwise, if the key is non-empty, it is
  \<open>session:simpleHash key\<close>; with an empty or absent key it is \<open>default\<close>. \<open>simpleHash\<close> is
  a function of the string, always 8 characters long, each a lowercase hexadecimal digit.
\<close>

theorem resolveUserId_contract:
  fixes ctx :: AnyContext
  defines "key \<equiv> (case sessionKey ctx of Some k \<Rightarrow> k | None \<Rightarrow> [])"
    and "provider \<equiv> (case messageProvider ctx of Some p \<Rightarrow> p
                      | None \<Rightarrow> (case messageChannel ctx of Some c \<Rightarrow> c | None \<Rightarrow> []))"
  defines "shaped \<equiv> (\<exists>s0 s1 p rest. CHR '':'' \<notin> set s0 \<and> CHR '':'' \<notin> set s1
       \<and> CHR '':'' \<notin> set p \<and> p \<noteq> [] \<and> rest \<noteq> []
       \<and> key = s0 @ '':'' @ s1 @ '':'' @ p @ '':'' @ rest)"
  shows "(\<forall>s0 s1 p rest. CHR '':'' \<notin> set s0 \<and> CHR '':'' \<notin> set s1 \<and> CHR '':'' \<notin> set p
            \<and> p \<noteq> [] \<and> rest \<noteq> [] \<and> key = s0 @ '':'' @ s1 @ '':'' @ p @ '':'' @ rest
          \<longrightarrow> resolveUserId ctx = p @ '':'' @ rest)
       \<and> (\<not> shaped \<and> provider \<noteq> [] \<and> key \<noteq> []
          \<longrightarrow> resolveUserId ctx = provider @ '':'' @ simpleHash key)
       \<and> (\<not> shaped \<and> provider = [] \<and> key \<noteq> []
          \<longrightarrow> resolveUserId ctx = ''session:'' @ simpleHash key)
       \<and> (key = [] \<longrightarrow> resolveUserId ctx = ''default'')
       \<and> length (simpleHash key) = 8 \<and> (\<forall>c \<in> set (simpleHash key). is_lower_hex c)"
proof -
  have A: "resolveUserId ctx = p @ '':'' @ rest"
    if "CHR '':'' \<notin> set s0 \<and> CHR '':'' \<notin> set s1 \<and> CHR '':'' \<notin> set p
            \<and> p \<noteq> [] \<and> rest \<noteq> [] \<and> key = s0 @ '':'' @ s1 @ '':'' @ p @ '':'' @ rest"
    for s0 s1 p rest
  proof -
    from that have "key \<noteq> []" by auto
    then have "sessionKey ctx = Some (s0 @ '':'' @ s1 @ '':'' @ p @ '':'' @ rest)"
      using that unfolding key_def by (cases "sessionKey ctx") auto
    then show ?thesis
      using that by (intro resolveUserId_shaped) auto
  qed
  have cond: "shaped \<longleftrightarrow> (length (js_split (CHR '':'') key) \<ge> 4
        \<and> js_split (CHR '':'') key ! 2 \<noteq> []
        \<and> js_join '':'' (drop 3 (js_split (CHR '':'') key)) \<noteq> [])"
    unfolding shaped_def by (rule peer_shape_iff)
  have unf: "resolveUserId ctx =
       (if shaped then js_split (CHR '':'') key ! 2 @ '':'' @ js_join '':'' (drop 3 (js_split (CHR '':'') key))
        else if provider \<noteq> [] \<and> key \<noteq> [] then provider @ '':'' @ simpleHash key
        else if key \<noteq> [] then ''session:'' @ simpleHash key else ''default'')"
    unfolding cond unfolding resolveUserId_def Let_def key_def provider_def by simp
  have B: "\<not> shaped \<and> provider \<noteq> [] \<and> key \<noteq> []
          \<longrightarrow> resolveUserId ctx = provider @ '':'' @ simpleHash key"
    by (simp add: unf)
  have C: "\<not> shaped \<and> provider = [] \<and> key \<noteq> []
          \<longrightarrow> resolveUserId ctx = ''session:'' @ simpleHash key"
    by (simp add: unf)
  have "key = [] \<Longrightarrow> \<not> shaped" unfolding shaped_def by auto
  then have D: "key = [] \<longrightarrow> resolveUserId ctx = ''default''"
    by (simp add: unf)
  have A': "\<forall>s0 s1 p rest. CHR '':'' \<notin> set s0 \<and> CHR '':'' \<notin> set s1 \<and> CHR '':'' \<notin> set p
            \<and> p \<noteq> [] \<and> rest \<noteq> [] \<and> key = s0 @ '':'' @ s1 @ '':'' @ p @ '':'' @ rest
          \<longrightarrow> resolveUserId ctx = p @ '':'' @ rest"
    by (intro allI impI A)
  note S = simpleHash_shape [of key]
  show ?thesis
    by (intro conjI A' B C D S [THEN conjunct1] S [THEN conjunct2])
qed

theorem resolveUserId_contract_witness:
  "resolveUserId \<lparr>agentId = None, sessionKey = Some ''agent:main:telegram:12345'',
      workspaceDir = None, messageProvider = None, messageChannel = None\<rparr> = ''telegram:12345''
   \<and> resolveUserId \<lparr>agentId = None, sessionKey = Some ''abc'',
      workspaceDir = None, messageProvider = None, messageChannel = Some ''discord''\<rparr> = ''discord:00017862''
   \<and> resolveUserId \<lparr>agentId = None, sessionKey = Some ''abc'',
      workspaceDir = None, messageProvider = None, messageChannel = None\<rparr> = ''session:00017862''
   \<and> resolveUserId \<lparr>agentId = None, sessionKey = None,
      workspaceDir = None, messageProvider = Some ''discord'', messageChannel = None\<rparr> = ''default''
   \<and> length (simpleHash ''abc'') = 8 \<and> list_all is_lower_hex (simpleHash ''abc'')"
proof -
  let ?c1 = "\<lparr>agentId = None, sessionKey = Some ''agent:main:telegram:12345'',
      workspaceDir = None, messageProvider = None, messageChannel = None\<rparr>"
  let ?c2 = "\<lparr>agentId = None, sessionKey = Some ''abc'',
      workspaceDir = None, messageProvider = None, messageChannel = Some ''discord''\<rparr>"
  let ?c3 = "\<lparr>agentId = None, sessionKey = Some ''abc'',
      workspaceDir = None, messageProvider = None, messageChannel = None\<rparr>"
  let ?c4 = "\<lparr>agentId = None, sessionKey = None,
      workspaceDir = None, messageProvider = Some ''discord'', messageChannel = None\<rparr>"
  have ns: "\<not> (\<exists>s0 s1 p rest. CHR '':'' \<notin> set s0 \<and> CHR '':'' \<notin> set s1
       \<and> CHR '':'' \<notin> set p \<and> p \<noteq> [] \<and> rest \<noteq> []
       \<and> ''abc'' = s0 @ '':'' @ s1 @ '':'' @ p @ '':'' @ rest)"
    unfolding peer_shape_iff by simp
  have k1: "''agent:main:telegram:12345'' = ''agent'' @ '':'' @ ''main'' @ '':'' @ ''telegram'' @ '':'' @ ''12345''"
    by simp
  have 1: "resolveUserId ?c1 = ''telegram:12345''"
    using resolveUserId_contract [of ?c1, THEN conjunct1, rule_format,
        of "''agent''" "''main''" "''telegram''" "''12345''"]
    by simp
  have 2: "resolveUserId ?c2 = ''discord:00017862''"
    using resolveUserId_contract [of ?c2] ns by (simp add: simpleHash_abc)
  have 3: "resolveUserId ?c3 = ''session:00017862''"
    using resolveUserId_contract [of ?c3] ns by (simp add: simpleHash_abc)
  have 4: "resolveUserId ?c4 = ''default''"
    using resolveUserId_contract [of ?c4] by simp
  have 5: "length (simpleHash ''abc'') = 8 \<and> list_all is_lower_hex (simpleHash ''abc'')"
    using resolveUserId_contract [of ?c3] by (simp add: list_all_iff)
  show ?thesis by (intro conjI 1 2 3 4 5)
qed

text \<open>
  C10: the first segment of the session key is never compared with \<open>agent\<close>. For every
  context whose session key is \<open>s0:s1:p:rest\<close> with colon-free \<open>s0\<close>, \<open>s1\<close> and \<open>p\<close>
  (so that the key splits into at least four segments), non-empty third segment \<open>p\<close> and
  non-empty remainder \<open>rest\<close> after the third colon, the result is \<open>p:rest\<close>, whatever
  \<open>s0\<close> is.
\<close>

theorem resolveUserId_ignores_first_segment:
  assumes "sessionKey ctx = Some (s0 @ '':'' @ s1 @ '':'' @ p @ '':'' @ rest)"
    and "CHR '':'' \<notin> set s0" and "CHR '':'' \<notin> set s1" and "CHR '':'' \<notin> set p"
    and "p \<noteq> []" and "rest \<noteq> []"
  shows "resolveUserId ctx = p @ '':'' @ rest"
  using assms by (rule resolveUserId_shaped)

theorem resolveUserId_ignores_first_segment_witness:
  "resolveUserId \<lparr>agentId = None, sessionKey = Some ''user:main:telegram:-100:42'',
      workspaceDir = None, messageProvider = Some ''discord'', messageChannel = None\<rparr>
   = ''telegram:-100:42''"
  using resolveUserId_ignores_first_segment [of
      "\<lparr>agentId = None, sessionKey = Some ''user:main:telegram:-100:42'',
        workspaceDir = None, messageProvider = Some ''discord'', messageChannel = None\<rparr>"
      "''user''" "''main''" "''telegram''" "''-100:42''"]
  by simp

section \<open>Claims on the identity map\<close>

text \<open>
  C8, as stated, fails in its last part. \<open>addAliasToIdentityMap\<close> accepts an alias that
  is the canonical ID of another entry: from a map whose only entry is \<open>alice\<close>, linking
  the alias \<open>alice\<close> to \<open>bob\<close> gives a map in which every alias still belongs to one
  entry only, and there \<open>buildAliasLookup\<close> maps the canonical ID \<open>alice\<close> to \<open>bob\<close>, not
  to itself (the later \<open>set\<close> of the same key wins).
\<close>

theorem buildAliasLookup_counterexample:
  "snd (addAliasToIdentityMap
          \<lparr>identities = [\<lparr>canonical = ''alice'', aliases = [''tg:1''], label = None\<rparr>]\<rparr>
          ''bob'' ''alice'' None)
     = \<lparr>identities = [\<lparr>canonical = ''alice'', aliases = [''tg:1''], label = None\<rparr>,
                       \<lparr>canonical = ''bob'', aliases = [''alice''], label = None\<rparr>]\<rparr>
   \<and> alias_unique
        \<lparr>identities = [\<lparr>canonical = ''alice'', aliases = [''tg:1''], label = None\<rparr>,
                       \<lparr>canonical = ''bob'', aliases = [''alice''], label = None\<rparr>]\<rparr>
   \<and> resolveCanonicalUserId ''alice''
        (buildAliasLookup (Some
          \<lparr>identities = [\<lparr>canonical = ''alice'', aliases = [''tg:1''], label = None\<rparr>,
                         \<lparr>canonical = ''bob'', aliases = [''alice''], label = None\<rparr>]\<rparr>))
       = ''bob''"
  by (simp add: addAliasToIdentityMap_def alias_unique_def buildAliasLookup_def
      entry_lookup_def resolveCanonicalUserId_def Let_def)

text \<open>
  C8, amended. For every identity map in which each alias string occurs at most once,
  \<open>addAliasToIdentityMap m c a lbl\<close> returns a map with the same property; the returned
  entry is an entry of the new map, has canonical ID \<open>c\<close> and holds the alias, and no other
  entry of the new map holds it (it was detached from its previous owner); the canonical
  IDs of the entries are unchanged, with \<open>c\<close> appended when no entry had it (the target
  entry is created if absent); adding the same pair again returns \<open>added = false\<close> with the
  same entry and leaves the map as it is; and the alias occurs exactly once in the
  entry's alias list. After \<open>buildAliasLookup\<close> on a map in which, besides, no canonical ID
  is an alias of an entry with another canonical ID, every alias maps to its entry's
  canonical ID and every canonical ID maps to itself.
\<close>

theorem addAlias_contract:
  assumes "alias_unique m" and "addAliasToIdentityMap m c a lbl = (res, m')"
  shows "alias_unique m'
    \<and> entry res \<in> set (identities m') \<and> canonical (entry res) = c
    \<and> a \<in> set (aliases (entry res))
    \<and> (\<forall>e \<in> set (identities m'). a \<in> set (aliases e) \<longrightarrow> e = entry res)
    \<and> map canonical (identities m') =
        map canonical (identities m) @ (if c \<in> set (map canonical (identities m)) then [] else [c])
    \<and> addAliasToIdentityMap m' c a lbl' = (\<lparr>added = False, entry = entry res\<rparr>, m')
    \<and> count_list (aliases (entry res)) a = 1
    \<and> (alias_unique im \<and> canonical_not_alias im \<longrightarrow>
         (\<exists>l. buildAliasLookup (Some im) = Some l
            \<and> (\<forall>e \<in> set (identities im). l (canonical e) = Some (canonical e)
                 \<and> (\<forall>k \<in> set (aliases e). l k = Some (canonical e)))))"
proof -
  have canon: "map canonical (identities m') =
        map canonical (identities m) @ (if c \<in> set (map canonical (identities m)) then [] else [c])"
    using addAlias_canonicals [of m c a lbl] assms(2) by simp
  have look: "alias_unique im \<and> canonical_not_alias im \<longrightarrow>
         (\<exists>l. buildAliasLookup (Some im) = Some l
            \<and> (\<forall>e \<in> set (identities im). l (canonical e) = Some (canonical e)
                 \<and> (\<forall>k \<in> set (aliases e). l k = Some (canonical e))))"
  proof (intro impI, elim conjE)
    assume au: "alias_unique im" and cn: "canonical_not_alias im"
    let ?l = "fold entry_lookup (identities im) Map.empty"
    have b: "buildAliasLookup (Some im) = Some ?l" by (simp add: buildAliasLookup_def)
    have "?l (canonical e) = Some (canonical e) \<and> (\<forall>k \<in> set (aliases e). ?l k = Some (canonical e))"
      if "e \<in> set (identities im)" for e
      using lookup_consistent [OF au cn that] by simp
    with b show "\<exists>l. buildAliasLookup (Some im) = Some l
            \<and> (\<forall>e \<in> set (identities im). l (canonical e) = Some (canonical e)
                 \<and> (\<forall>k \<in> set (aliases e). l k = Some (canonical e)))"
      by (intro exI [of _ ?l] conjI ballI) simp_all
  qed
  from assms(1) have d: "distinct (concat (map aliases (identities m)))"
    by (simp add: alias_unique_def)
  have main: "alias_unique m'
    \<and> entry res \<in> set (identities m') \<and> canonical (entry res) = c
    \<and> a \<in> set (aliases (entry res))
    \<and> (\<forall>e \<in> set (identities m'). a \<in> set (aliases e) \<longrightarrow> e = entry res)
    \<and> addAliasToIdentityMap m' c a lbl' = (\<lparr>added = False, entry = entry res\<rparr>, m')
    \<and> count_list (aliases (entry res)) a = 1"
  proof -
    consider (existing) e where "e \<in> set (identities m)" "a \<in> set (aliases e)" "canonical e = c"
        "detach_alias c a (identities m) = Inl e"
        "addAliasToIdentityMap m c a lbl = (\<lparr>added = False, entry = e\<rparr>, m)"
      | (attached) pre t post where "a \<notin> set (concat (map aliases (pre @ t # post)))"
        "distinct (concat (map aliases (pre @ t # post)))" "canonical t = c"
        "addAliasToIdentityMap m c a lbl =
                (\<lparr>added = True, entry = t\<lparr>aliases := aliases t @ [a]\<rparr>\<rparr>,
                 m\<lparr>identities := pre @ t\<lparr>aliases := aliases t @ [a]\<rparr> # post\<rparr>)"
      using addAlias_shape [OF assms(1), of a c lbl] by blast
    then show ?thesis
    proof cases
      case existing
      from existing(5) assms(2) have eq: "entry res = e" "m' = m" by auto
      note E = addAlias_existing [OF d existing(1-4), of lbl']
      show ?thesis unfolding eq
        by (intro conjI assms(1) existing(1-3) E [THEN conjunct1]
            E [THEN conjunct2, THEN conjunct1] E [THEN conjunct2, THEN conjunct2])
    next
      case attached
      let ?t' = "t\<lparr>aliases := aliases t @ [a]\<rparr>"
      from attached(4) assms(2) have eq: "entry res = ?t'"
        and m': "m' = m\<lparr>identities := pre @ ?t' # post\<rparr>" by auto
      have mem: "?t' \<in> set (identities m')" unfolding m' by simp
      have ct: "canonical ?t' = c" "a \<in> set (aliases ?t')" using attached(3) by simp_all
      note A = addAlias_attached [OF attached(1-3) refl m', of lbl']
      show ?thesis unfolding eq
        by (intro conjI mem ct A [THEN conjunct1] A [THEN conjunct2, THEN conjunct1]
            A [THEN conjunct2, THEN conjunct2, THEN conjunct1]
            A [THEN conjunct2, THEN conjunct2, THEN conjunct2])
    qed
  qed
  from main canon look show ?thesis by (elim conjE) (intro conjI; assumption)
qed

theorem addAlias_contract_witness:
  "alias_unique
     \<lparr>identities = [\<lparr>canonical = ''alice'', aliases = [''alias1'', ''alias2''], label = None\<rparr>,
                    \<lparr>canonical = ''bob'', aliases = [], label = None\<rparr>]\<rparr>
   \<and> addAliasToIdentityMap
        \<lparr>identities = [\<lparr>canonical = ''alice'', aliases = [''alias1'', ''alias2''], label = None\<rparr>,
                       \<lparr>canonical = ''bob'', aliases = [], label = None\<rparr>]\<rparr>
        ''alice'' ''alias2'' None
       = (\<lparr>added = False,
           entry = \<lparr>canonical = ''alice'', aliases = [''alias1'', ''alias2''], label = None\<rparr>\<rparr>,
          \<lparr>identities = [\<lparr>canonical = ''alice'', aliases = [''alias1'', ''alias2''], label = None\<rparr>,
                         \<lparr>canonical = ''bob'', aliases = [], label = None\<rparr>]\<rparr>)
   \<and> count_list [''alias1'', ''alias2''] ''alias2'' = 1
   \<and> resolveCanonicalUserId ''alias2''
        (buildAliasLookup (Some
          \<lparr>identities = [\<lparr>canonical = ''alice'', aliases = [''alias1'', ''alias2''], label = None\<rparr>,
                         \<lparr>canonical = ''bob'', aliases = [], label = None\<rparr>]\<rparr>))
       = ''alice''"
proof -
  let ?m = "\<lparr>identities = [\<lparr>canonical = ''alice'', aliases = [''alias1''], label = None\<rparr>,
                           \<lparr>canonical = ''bob'', aliases = [''alias2''], label = None\<rparr>]\<rparr>"
  let ?e = "\<lparr>canonical = ''alice'', aliases = [''alias1'', ''alias2''], label = None\<rparr>"
  let ?m' = "\<lparr>identities = [?e, \<lparr>canonical = ''bob'', aliases = [], label = None\<rparr>]\<rparr>"
  have h1: "alias_unique ?m" by (simp add: alias_unique_def)
  have h2: "addAliasToIdentityMap ?m ''alice'' ''alias2'' None = (\<lparr>added = True, entry = ?e\<rparr>, ?m')"
    by (simp add: addAliasToIdentityMap_def Let_def)
  note T = addAlias_contract [OF h1 h2, of None ?m']
  have u: "alias_unique ?m'" using T by (elim conjE)
  have cn: "canonical_not_alias ?m'" by (simp add: canonical_not_alias_def)
  have again: "addAliasToIdentityMap ?m' ''alice'' ''alias2'' None = (\<lparr>added = False, entry = ?e\<rparr>, ?m')"
    using T by simp
  have cnt: "count_list [''alias1'', ''alias2''] ''alias2'' = 1" using T by simp
  from T u cn obtain l where l: "buildAliasLookup (Some ?m') = Some l"
    "\<forall>e \<in> set (identities ?m'). l (canonical e) = Some (canonical e)
        \<and> (\<forall>k \<in> set (aliases e). l k = Some (canonical e))"
    by blast
  from l(2) have "l ''alias2'' = Some ''alice''" by simp
  with l(1) have lk: "resolveCanonicalUserId ''alias2'' (buildAliasLookup (Some ?m')) = ''alice''"
    by (simp add: resolveCanonicalUserId_def)
  show ?thesis by (intro conjI u again cnt lk)
qed

section \<open>Claims on chunkForAnalysis\<close>

text \<open>
  C2. For every list of log entries and every \<open>maxChunkChars\<close> (positive or not), the
  chunks returned by \<open>chunkForAnalysis\<close> are the texts of consecutive non-empty runs of
  whole entries: the entry list is cut into groups, in order, and each chunk is the
  concatenation of the renderings of one group, so no chunk boundary falls inside a
  rendering. The concatenation of the chunks is the concatenation of the renderings of
  all entries in their order. A chunk of more than one entry has at most
  \<open>maxChunkChars\<close> characters, so only a chunk of a single entry can exceed the limit.
  The empty entry list gives no chunk.
\<close>

theorem chunkForAnalysis_whole_entries:
  "(\<exists>groups. concat groups = entries
      \<and> chunkForAnalysis entries maxChunkChars = map entriesText groups
      \<and> (\<forall>g \<in> set groups. g \<noteq> []
            \<and> (length g > 1 \<longrightarrow> int (length (entriesText g)) \<le> maxChunkChars)))
   \<and> concat (chunkForAnalysis entries maxChunkChars) = concat (map entryText entries)
   \<and> chunkForAnalysis [] maxChunkChars = []"
proof -
  have w0: "within_limit maxChunkChars []" by (simp add: within_limit_def)
  have e0: "entriesText [] = []" by (simp add: entriesText_def)
  from chunk_loop_groups [OF w0, of entries "[]"]
  obtain gs g where h: "concat gs @ g = entries"
     "chunk_loop maxChunkChars entries ([], []) = (map entriesText gs, entriesText g)"
     "\<forall>x \<in> set gs. x \<noteq> [] \<and> within_limit maxChunkChars x" "within_limit maxChunkChars g"
    unfolding e0 by auto
  let ?groups = "gs @ (if g = [] then [] else [g])"
  have c: "chunkForAnalysis entries maxChunkChars = map entriesText ?groups"
    using h(2) by (simp add: chunkForAnalysis_def js_trim_entriesText e0)
  have cc: "concat ?groups = entries" using h(1) by auto
  have b: "\<forall>x \<in> set ?groups. x \<noteq> []
            \<and> (length x > 1 \<longrightarrow> int (length (entriesText x)) \<le> maxChunkChars)"
    using h(3,4) by (auto simp: within_limit_def)
  have A: "\<exists>groups. concat groups = entries
      \<and> chunkForAnalysis entries maxChunkChars = map entriesText groups
      \<and> (\<forall>g \<in> set groups. g \<noteq> []
            \<and> (length g > 1 \<longrightarrow> int (length (entriesText g)) \<le> maxChunkChars))"
    using cc c b by (intro exI [of _ ?groups] conjI)
  have "concat (map entriesText ?groups) = concat (map entryText (concat ?groups))"
    by (rule concat_entriesText)
  then have B: "concat (chunkForAnalysis entries maxChunkChars) = concat (map entryText entries)"
    unfolding c cc .
  have C: "chunkForAnalysis [] maxChunkChars = []"
    by (simp add: chunkForAnalysis_def js_trim_def)
  from A B C show ?thesis by (intro conjI)
qed

theorem chunkForAnalysis_whole_entries_witness:
  "concat (chunkForAnalysis
      [\<lparr>ts = ''t1'', user_id = ''u'', channel = ''c'', session_id = ''s'',
         messages = [\<lparr>role = User, content = ''hi'', tool_name = None\<rparr>]\<rparr>,
       \<lparr>ts = ''t2'', user_id = ''u'', channel = ''c'', session_id = ''s'',
         messages = [\<lparr>role = Tool, content = ''out'', tool_name = None\<rparr>]\<rparr>] 10)
   = ''--- Session: s | User: u | t1 ---'' @ [CHR 0x0A] @ ''USER: hi'' @ [CHR 0x0A, CHR 0x0A]
     @ ''--- Session: s | User: u | t2 ---'' @ [CHR 0x0A] @ ''TOOL(unknown): out''
     @ [CHR 0x0A, CHR 0x0A]
   \<and> chunkForAnalysis [] 10 = []"
  using chunkForAnalysis_whole_entries [of
      "[\<lparr>ts = ''t1'', user_id = ''u'', channel = ''c'', session_id = ''s'',
         messages = [\<lparr>role = User, content = ''hi'', tool_name = None\<rparr>]\<rparr>,
       \<lparr>ts = ''t2'', user_id = ''u'', channel = ''c'', session_id = ''s'',
         messages = [\<lparr>role = Tool, content = ''out'', tool_name = None\<rparr>]\<rparr>]" 10]
  by (simp add: entryText_def message_line_def)

section \<open>Claims on parseSleepAnalysis\<close>

text \<open>
  C4. The claim says that \<open>parseSleepAnalysis\<close> raises an error only when the
  fence-stripped text is not valid JSON. The text \<open>null\<close> is valid JSON, and there the
  function throws: whenever \<open>JSON.parse\<close> of the fence-stripped response returns
  \<open>null\<close>, reading \<open>parsed.hot_facts\<close> is a TypeError.
\<close>

theorem parseSleepAnalysis_null:
  assumes "JSON_parse (strip_fences response) = Some JNull"
  shows "parseSleepAnalysis JSON_parse response = Inl TypeError"
  using assms by (simp add: parseSleepAnalysis_def build_analysis_def)

theorem parseSleepAnalysis_null_witness:
  "parseSleepAnalysis (\<lambda>s. if s = ''null'' then Some JNull else None) ''null'' = Inl TypeError"
  using parseSleepAnalysis_null [of "\<lambda>s. if s = ''null'' then Some JNull else None" "''null''"]
  by (simp add: strip_fences_def js_trim_def is_space_def startsWith_def)

section \<open>Claims on the log directory\<close>

text \<open>
  C5. A missing log directory gives the empty sequence. For an existing directory the
  result of \<open>findUnprocessedLogs\<close> holds exactly the files whose name ends in
  \<open>.jsonl\<close> and whose date (the name without that ending) is neither the current
  date nor in the processed-date set: today's file and the processed dates are excluded,
  every other daily-log file is included, once. The dates of the result are sorted
  ascending in the lexicographic order of strings, where \<open>localeCompare\<close>, a
  parameter of the model, agrees with that order on the dates of the directory (as it
  does on dates written \<open>YYYY-MM-DD\<close>).
\<close>

theorem findUnprocessedLogs_contract:
  "findUnprocessedLogs localeCompare today None = []
   \<and> set (findUnprocessedLogs localeCompare today (Some files)) =
       {\<lparr>date = basename f ''.jsonl'', path = f\<rparr> | f.
          f \<in> fst ` set files \<and> endsWith f ''.jsonl'' \<and> basename f ''.jsonl'' \<noteq> today
          \<and> basename f ''.jsonl'' \<notin> getProcessedDates (Some files)}
   \<and> length (findUnprocessedLogs localeCompare today (Some files)) =
       length (filter (\<lambda>f. endsWith f ''.jsonl'' \<and> basename f ''.jsonl'' \<noteq> today
                 \<and> basename f ''.jsonl'' \<notin> getProcessedDates (Some files)) (map fst files))
   \<and> ((\<forall>a \<in> fst ` set files. \<forall>b \<in> fst ` set files.
          (localeCompare (basename a ''.jsonl'') (basename b ''.jsonl'') \<le> 0)
            = (basename a ''.jsonl'' \<le> basename b ''.jsonl''))
        \<longrightarrow> sorted (map date (findUnprocessedLogs localeCompare today (Some files))))"
proof -
  let ?P = "getProcessedDates (Some files)"
  let ?cands = "filter (\<lambda>f. date f \<noteq> today \<and> date f \<notin> ?P)
                    (map (\<lambda>f. \<lparr>date = basename f ''.jsonl'', path = f\<rparr>)
                       (filter (\<lambda>f. endsWith f ''.jsonl'') (map fst files)))"
  have r: "findUnprocessedLogs localeCompare today (Some files)
           = js_sort (\<lambda>a b. localeCompare (date a) (date b)) ?cands"
    by (simp add: findUnprocessedLogs_def existsSync_dir_def readdirSync_def)
  have A: "findUnprocessedLogs localeCompare today None = []"
    by (simp add: findUnprocessedLogs_def existsSync_dir_def)
  have B: "set (findUnprocessedLogs localeCompare today (Some files)) =
       {\<lparr>date = basename f ''.jsonl'', path = f\<rparr> | f.
          f \<in> fst ` set files \<and> endsWith f ''.jsonl'' \<and> basename f ''.jsonl'' \<noteq> today
          \<and> basename f ''.jsonl'' \<notin> ?P}"
    unfolding r set_js_sort by auto
  have "length ?cands = length (filter (\<lambda>f. endsWith f ''.jsonl'' \<and> basename f ''.jsonl'' \<noteq> today
                 \<and> basename f ''.jsonl'' \<notin> ?P) (map fst files))"
    by (simp add: filter_map comp_def)
  then have C: "length (findUnprocessedLogs localeCompare today (Some files)) =
       length (filter (\<lambda>f. endsWith f ''.jsonl'' \<and> basename f ''.jsonl'' \<noteq> today
                 \<and> basename f ''.jsonl'' \<notin> ?P) (map fst files))"
    unfolding r length_js_sort .
  have D: "sorted (map date (findUnprocessedLogs localeCompare today (Some files)))"
    if h: "\<forall>a \<in> fst ` set files. \<forall>b \<in> fst ` set files.
          (localeCompare (basename a ''.jsonl'') (basename b ''.jsonl'') \<le> 0)
            = (basename a ''.jsonl'' \<le> basename b ''.jsonl'')"
  proof -
    have "\<forall>a \<in> set ?cands. \<forall>b \<in> set ?cands.
            (localeCompare (date a) (date b) \<le> 0) = (date a \<le> date b)"
    proof (intro ballI)
      fix a b assume ab: "a \<in> set ?cands" "b \<in> set ?cands"
      from ab(1) obtain fa where fa: "fa \<in> fst ` set files" "date a = basename fa ''.jsonl''"
        by force
      from ab(2) obtain fb where fb: "fb \<in> fst ` set files" "date b = basename fb ''.jsonl''"
        by force
      have "(localeCompare (basename fa ''.jsonl'') (basename fb ''.jsonl'') \<le> 0)
            = (basename fa ''.jsonl'' \<le> basename fb ''.jsonl'')"
        using h fa(1) fb(1) by blast
      then show "(localeCompare (date a) (date b) \<le> 0) = (date a \<le> date b)"
        unfolding fa(2) fb(2) .
    qed
    then show ?thesis unfolding r by (rule sorted_js_sort)
  qed
  from A B C D show ?thesis by (intro conjI impI)
qed

theorem findUnprocessedLogs_contract_witness:
  "sorted (map date (findUnprocessedLogs (\<lambda>a b. if a \<le> b then - 1 else 1) ''2026-02-10''
      (Some [(''2026-02-09.jsonl'', ''x''),
        (''.processed'', ''2026-02-07'' @ [CHR 0x0A]), (''2026-02-07.jsonl'', []),
        (''2026-02-10.jsonl'', []), (''2026-02-08.jsonl'', []), (''notes.txt'', [])])))
   \<and> length (findUnprocessedLogs (\<lambda>a b. if a \<le> b then - 1 else 1) ''2026-02-10''
      (Some [(''2026-02-09.jsonl'', ''x''),
        (''.processed'', ''2026-02-07'' @ [CHR 0x0A]), (''2026-02-07.jsonl'', []),
        (''2026-02-10.jsonl'', []), (''2026-02-08.jsonl'', []), (''notes.txt'', [])])) = 2"
proof -
  let ?cmp = "\<lambda>a b :: string. if a \<le> b then - 1 else (1::int)"
  let ?files = "[(''2026-02-09.jsonl'', ''x''),
        (''.processed'', ''2026-02-07'' @ [CHR 0x0A]), (''2026-02-07.jsonl'', []),
        (''2026-02-10.jsonl'', []), (''2026-02-08.jsonl'', []), (''notes.txt'', [])]"
  note T = findUnprocessedLogs_contract [of ?cmp "''2026-02-10''" ?files]
  have agree: "\<forall>a \<in> fst ` set ?files. \<forall>b \<in> fst ` set ?files.
          (?cmp (basename a ''.jsonl'') (basename b ''.jsonl'') \<le> 0)
            = (basename a ''.jsonl'' \<le> basename b ''.jsonl'')"
    by (intro ballI) (simp only: if_distrib [of "\<lambda>x. x \<le> 0"], simp)
  from T agree have s: "sorted (map date (findUnprocessedLogs ?cmp ''2026-02-10'' (Some ?files)))"
    by blast
  from T have l: "length (findUnprocessedLogs ?cmp ''2026-02-10'' (Some ?files)) =
       length (filter (\<lambda>f. endsWith f ''.jsonl'' \<and> basename f ''.jsonl'' \<noteq> ''2026-02-10''
                 \<and> basename f ''.jsonl'' \<notin> getProcessedDates (Some ?files)) (map fst ?files))"
    by blast
  have "length (filter (\<lambda>f. endsWith f ''.jsonl'' \<and> basename f ''.jsonl'' \<noteq> ''2026-02-10''
                 \<and> basename f ''.jsonl'' \<notin> getProcessedDates (Some ?files)) (map fst ?files)) = 2"
    unfolding processed_example by (simp add: endsWith_def basename_def)
  with l s show ?thesis by simp
qed

section \<open>Claims on the maintenance run\<close>



text \<open>
  C6. The log directory is missing and the run was given a date: the day's log reads as
  zero entries, and the round goes straight to \<open>markProcessed\<close>, with no call to the
  provider and none to \<open>saveDigest\<close>. There \<open>appendFileSync\<close> throws \<open>ENOENT\<close>, since
  \<open>markProcessed\<close> does not create the directory as \<open>appendToLog\<close> and \<open>saveDigest\<close>
  create theirs. The exception leaves the loop, so that the later candidates are not
  visited, and the processed-date set is empty as before: the date is not marked.
\<close>

theorem empty_day_missing_directory:
  assumes "w_logDir w = None"
  shows "readDailyLog p (w_logDir w) (path log) = []
    \<and> process_day env p de log w = Inl ENOENT
    \<and> process_logs env p de (log # logs) w = Inl ENOENT
    \<and> getProcessedDates (w_logDir w) = {}"
proof -
  have rd: "readDailyLog p (w_logDir w) (path log) = []"
    using assms by (simp add: readDailyLog_def read_file_def)
  have mk: "mark_day w (date log) = Inl ENOENT"
    using assms by (simp add: mark_day_def markProcessed_def appendFileSync_def)
  have pd: "process_day env p de log w = Inl ENOENT"
    using rd mk by (simp add: process_day_def)
  have pl: "process_logs env p de (log # logs) w = Inl ENOENT"
    using pd by simp
  have gp: "getProcessedDates (w_logDir w) = {}"
    using assms by (simp add: getProcessedDates_def read_file_def)
  from rd pd pl gp show ?thesis by (intro conjI)
qed

theorem empty_day_missing_directory_witness:
  "process_day
     \<lparr>provider_add = (\<lambda>x msgs. (Some (Some []), x)), provider_getAll = (\<lambda>x. (Some [], x)),
      saveDigest = (\<lambda>x d a. (True, x))\<rparr>
     (\<lambda>line. None) True \<lparr>date = ''2026-02-07'', path = ''2026-02-07.jsonl''\<rparr>
     \<lparr>w_logDir = None, w_ext = (), w_calls = []\<rparr>
   = Inl ENOENT
   \<and> process_logs
     \<lparr>provider_add = (\<lambda>x msgs. (Some (Some []), x)), provider_getAll = (\<lambda>x. (Some [], x)),
      saveDigest = (\<lambda>x d a. (True, x))\<rparr>
     (\<lambda>line. None) True
     [\<lparr>date = ''2026-02-07'', path = ''2026-02-07.jsonl''\<rparr>,
      \<lparr>date = ''2026-02-08'', path = ''2026-02-08.jsonl''\<rparr>]
     \<lparr>w_logDir = None, w_ext = (), w_calls = []\<rparr>
   = Inl ENOENT"
proof -
  let ?env = "\<lparr>provider_add = (\<lambda>x msgs. (Some (Some []), x)),
      provider_getAll = (\<lambda>x. (Some [], x)),
      saveDigest = (\<lambda>x d a. (True, x))\<rparr> :: unit collaborators"
  let ?log = "\<lparr>date = ''2026-02-07'', path = ''2026-02-07.jsonl''\<rparr>"
  let ?w = "\<lparr>w_logDir = None, w_ext = (), w_calls = []\<rparr>"
  have dir: "w_logDir ?w = None" by simp
  from empty_day_missing_directory [OF dir, of "\<lambda>line. None" ?log ?env True
      "[\<lparr>date = ''2026-02-08'', path = ''2026-02-08.jsonl''\<rparr>]"]
  show ?thesis by (elim conjE) (rule conjI)
qed

text \<open>
  C9. With an explicit date that passes the format test, the candidate list is that
  single date, whatever the current date and the processed-date set are. When the log
  directory is missing, the log file of the date does not exist; the run, not a dry
  run, calls \<open>provider.getAll\<close>, reads zero entries and goes to \<open>markProcessed\<close>,
  whose \<open>appendFileSync\<close> throws \<open>ENOENT\<close>: the action ends with that exception and
  the date is not marked.
\<close>

theorem explicit_date_missing_directory:
  assumes "valid_date d" and "w_logDir w = None"
  shows "discover localeCompare today (Some d) (w_logDir w) = [\<lparr>date = d, path = d @ ''.jsonl''\<rparr>]
    \<and> read_file (w_logDir w) (d @ ''.jsonl'') = None
    \<and> mem0_sleep env p localeCompare today de (Some d) False w = Inl ENOENT"
proof -
  note shape = valid_date_shape [OF assms(1)]
  have disc: "discover localeCompare today (Some d) (w_logDir w) = [\<lparr>date = d, path = d @ ''.jsonl''\<rparr>]"
    using shape by (simp add: discover_def)
  have rf: "read_file (w_logDir w) (d @ ''.jsonl'') = None"
    using assms(2) by (simp add: read_file_def)
  obtain existing x0 where ga: "provider_getAll env (w_ext w) = (existing, x0)"
    by (cases "provider_getAll env (w_ext w)")
  let ?w0 = "w\<lparr>w_ext := x0, w_calls := w_calls w @ [GetAllCall (existing \<noteq> None)]\<rparr>"
  let ?log = "\<lparr>date = d, path = d @ ''.jsonl''\<rparr>"
  have m: "mem0_sleep env p localeCompare today de (Some d) False w
           = process_logs env p de [?log] ?w0"
    using assms(1) ga shape by (simp add: mem0_sleep_def disc)
  have rd: "readDailyLog p (w_logDir ?w0) (path ?log) = []"
    using assms(2) by (simp add: readDailyLog_def read_file_def)
  have mk: "mark_day ?w0 d = Inl ENOENT"
    using assms(2) by (simp add: mark_day_def markProcessed_def appendFileSync_def)
  have pd: "process_day env p de ?log ?w0 = Inl ENOENT"
    using rd mk by (simp add: process_day_def)
  have run: "mem0_sleep env p localeCompare today de (Some d) False w = Inl ENOENT"
    unfolding m by (simp only: process_logs.simps pd sum.case)
  from disc rf run show ?thesis by (intro conjI)
qed

theorem explicit_date_missing_directory_witness:
  "mem0_sleep
        \<lparr>provider_add = (\<lambda>x msgs. (Some (Some []), x)), provider_getAll = (\<lambda>x. (Some [], x)),
         saveDigest = (\<lambda>x d a. (True, x))\<rparr>
        (\<lambda>line. None) (\<lambda>a b. 0) ''2026-11-03'' True (Some ''2026-02-07'') False
        \<lparr>w_logDir = None, w_ext = (), w_calls = []\<rparr>
     = Inl ENOENT"
proof -
  let ?env = "\<lparr>provider_add = (\<lambda>x msgs. (Some (Some []), x)),
      provider_getAll = (\<lambda>x. (Some [], x)),
      saveDigest = (\<lambda>x d a. (True, x))\<rparr> :: unit collaborators"
  let ?w = "\<lparr>w_logDir = None, w_ext = (), w_calls = []\<rparr>"
  have v: "valid_date ''2026-02-07''" by (simp add: is_digit_def)
  have dir: "w_logDir ?w = None" by simp
  from explicit_date_missing_directory [OF v dir, of "\<lambda>a b. 0" "''2026-11-03''" ?env
      "\<lambda>line. None" True]
  show ?thesis by (elim conjE)
qed

section \<open>Claims on searchLogs\<close>

text \<open>
  C7. The position of the match is found in the lower-cased message text and used to
  cut the message text itself. When that position lies more than 100 code units past the
  end of the message text, as it does when lower-casing doubles the code units in front
  of the match, the snippet is \<open>...\<close> and nothing else: it holds neither the match nor
  any text around it. Stated for a directory with one log file of one entry whose first
  message matches. In the example after it, the message is 200 copies of a code unit that
  lower-cases to two code units, as U+0130 does, followed by the query.
\<close>

theorem searchLogs_snippet_off_match:
  assumes "endsWith name ''.jsonl''"
    and "readDailyLog parse_entry (Some [(name, txt)]) name = [e]"
    and "messages e = msg # msgs"
    and "indexOf (toLowerCase (content msg)) (toLowerCase query) = Some idx"
    and "length (content msg) + 100 < idx"
    and "0 < limit"
  shows "searchLogs parse_entry toLowerCase localeCompare (Some [(name, txt)]) query None None limit
           = [(e, ''...'')]"
proof -
  let ?dir = "Some [(name, txt)]"
  let ?f = "\<lparr>date = basename name ''.jsonl'', path = name\<rparr>"
  have fl: "search_file_list localeCompare ?dir None None = [?f]"
    using assms(1) by (simp add: search_file_list_def readdirSync_def date_filter_def js_sort_def)
  have mc: "match_context query (content msg) idx = ''...''"
    by (rule match_context_beyond [OF assms(5)])
  have fm: "first_match toLowerCase query (messages e) = Some ''...''"
    unfolding assms(3) using assms(4) mc by simp
  have se: "search_entries toLowerCase query limit [e] [] = [(e, ''...'')]"
    using assms(6) fm by simp
  have sf: "search_files parse_entry toLowerCase ?dir query limit [?f] [] = [(e, ''...'')]"
    using assms(6) assms(2) se by simp
  show ?thesis
    unfolding searchLogs_def fl sf by (simp add: existsSync_dir_def)
qed

theorem searchLogs_snippet_off_match_witness:
  "searchLogs
      (\<lambda>line. Some \<lparr>ts = ''t'', user_id = ''u'', channel = ''c'', session_id = ''s'',
                      messages = [\<lparr>role = User,
                                   content = replicate 200 (CHR 0xDD) @ ''needle'',
                                   tool_name = None\<rparr>]\<rparr>)
      (\<lambda>s. concat (map (\<lambda>c. if c = CHR 0xDD then [CHR ''i'', CHR 0xCC] else [c]) s))
      (\<lambda>a b. 0)
      (Some [(''2026-02-07.jsonl'', ''x'')])
      ''needle'' None None 5
   = [(\<lparr>ts = ''t'', user_id = ''u'', channel = ''c'', session_id = ''s'',
        messages = [\<lparr>role = User,
                     content = replicate 200 (CHR 0xDD) @ ''needle'',
                     tool_name = None\<rparr>]\<rparr>, ''...'')]"
proof -
  let ?msg = "\<lparr>role = User, content = replicate 200 (CHR 0xDD) @ ''needle'', tool_name = None\<rparr>"
  let ?e = "\<lparr>ts = ''t'', user_id = ''u'', channel = ''c'', session_id = ''s'',
             messages = [?msg]\<rparr>"
  let ?p = "\<lambda>line :: string. Some ?e"
  let ?toLowerCase = "\<lambda>s. concat (map (\<lambda>c. if c = CHR 0xDD then [CHR ''i'', CHR 0xCC] else [c]) s)"
  let ?pair = "[CHR ''i'', CHR 0xCC]"
  have ew: "endsWith ''2026-02-07.jsonl'' ''.jsonl''" by (simp add: endsWith_def)
  have rd: "readDailyLog ?p (Some [(''2026-02-07.jsonl'', ''x'')]) ''2026-02-07.jsonl'' = [?e]"
    by (simp add: readDailyLog_def read_file_def js_trim_def is_space_def)
  have ms: "messages ?e = ?msg # []" by simp
  have lr: "?toLowerCase (replicate n (CHR 0xDD)) = concat (replicate n ?pair)" for n
    by (induction n) simp_all
  have lq: "?toLowerCase ''needle'' = ''needle''" by simp
  have lc: "?toLowerCase (content ?msg) = concat (replicate 200 ?pair) @ ''needle''"
    using lr [of 200] lq by simp
  have io: "indexOf (concat (replicate n ?pair) @ ''needle'') ''needle'' = Some (2 * n)" for n
    by (induction n) (simp_all add: startsWith_def)
  have ix: "indexOf (?toLowerCase (content ?msg)) (?toLowerCase ''needle'') = Some 400"
    unfolding lc lq using io [of 200] by simp
  have far: "length (content ?msg) + 100 < 400" by simp
  have lim: "(0::int) < 5" by simp
  from searchLogs_snippet_off_match [OF ew rd ms ix far lim, of "\<lambda>a b. 0"]
  show ?thesis .
qed

end
